theory Spec2Isabelle
  imports Complex_Main
begin

section \<open>The Gomoku engine of ai\_system.py\<close>

text \<open>
  The board is Python's \<^verbatim>\<open>List[List[int]]\<close>: a list of rows of integers, 0 for an empty
  cell, 1 and 2 for the two players (the code computes the opponent as \<^verbatim>\<open>3 - player\<close>).
  Row and column indices are Python integers, so they are \<^typ>\<open>int\<close> here: the run-length
  loops step to \<^verbatim>\<open>row - dr\<close>, which may be negative, and guard it with \<^verbatim>\<open>0 <= r\<close>.
  The rows of the board are taken to be separate list objects (no two rows alias), so a
  board is a value and an assignment \<^verbatim>\<open>board[r][c] = v\<close> returns the updated board.

  Every list access that Python can refuse is a value of \<open>error + 'a\<close>. Python raises
  the one exception \<^verbatim>\<open>IndexError\<close>; the model records where it was raised: on the
  board, on the candidate list (\<^verbatim>\<open>candidate_moves[0]\<close>), or in \<^verbatim>\<open>random.choice\<close>.
  A negative board index is reported as an \<^verbatim>\<open>IndexError\<close> on the board, which is
  stricter than Python (where it would wrap around).
\<close>

datatype place = Board | Candidates | Choice

datatype error = IndexError place | Diverges

type_synonym grid = "int list list"

type_synonym move = "int \<times> int"

definition ebind :: "error + 'a \<Rightarrow> ('a \<Rightarrow> error + 'b) \<Rightarrow> error + 'b" where
  "ebind m f = (case m of Inl e \<Rightarrow> Inl e | Inr v \<Rightarrow> f v)"

definition board_size :: int where
  "board_size = 15"

definition wf_grid :: "grid \<Rightarrow> bool" where
  "wf_grid g \<longleftrightarrow> int (length g) = board_size \<and> (\<forall>row \<in> set g. int (length row) = board_size)"

text \<open>\<^verbatim>\<open>board[r][c]\<close> as a read, and \<^verbatim>\<open>board[r][c] = v\<close> as a write.\<close>

definition cell :: "grid \<Rightarrow> int \<Rightarrow> int \<Rightarrow> error + int" where
  "cell g r c =
     (if 0 \<le> r \<and> r < int (length g) \<and> 0 \<le> c \<and> c < int (length (g ! nat r))
      then Inr (g ! nat r ! nat c)
      else Inl (IndexError Board))"

definition put :: "grid \<Rightarrow> int \<Rightarrow> int \<Rightarrow> int \<Rightarrow> error + grid" where
  "put g r c v =
     (if 0 \<le> r \<and> r < int (length g) \<and> 0 \<le> c \<and> c < int (length (g ! nat r))
      then Inr (g[nat r := (g ! nat r)[nat c := v]])
      else Inl (IndexError Board))"

definition in_board :: "int \<Rightarrow> int \<Rightarrow> bool" where
  "in_board r c \<longleftrightarrow> 0 \<le> r \<and> r < board_size \<and> 0 \<le> c \<and> c < board_size"

subsection \<open>Run lengths\<close>

text \<open>
  The loop
  \<^verbatim>\<open>while 0 <= r < self.board_size and 0 <= c < self.board_size and board[r][c] == player:
      count += 1; r += dr; c += dc\<close>
  With a step \<open>(dr, dc) \<noteq> (0, 0)\<close> it leaves the board after at most \<open>board_size\<close> rounds.
  With the step \<open>(0, 0)\<close> on a cell of the player it never ends; the fuel stands for
  that: \<open>Suc (nat board_size)\<close> tests of the loop condition are allowed, and a loop that
  passes them all is reported as \<open>Diverges\<close>.
\<close>

fun walk :: "nat \<Rightarrow> grid \<Rightarrow> int \<Rightarrow> int \<Rightarrow> int \<Rightarrow> int \<Rightarrow> int \<Rightarrow> int \<Rightarrow> error + int" where
  "walk 0 g r c dr dc player count = Inl Diverges"
| "walk (Suc n) g r c dr dc player count =
     (if in_board r c
      then (case cell g r c of
              Inl e \<Rightarrow> Inl e
            | Inr v \<Rightarrow> if v = player then walk n g (r + dr) (c + dc) dr dc player (count + 1)
                       else Inr count)
      else Inr count)"

definition walk_fuel :: nat where
  "walk_fuel = Suc (nat board_size)"

definition count_consecutive :: "grid \<Rightarrow> int \<Rightarrow> int \<Rightarrow> int \<Rightarrow> int \<Rightarrow> int \<Rightarrow> error + int" where
  "count_consecutive g row col dr dc player =
     ebind (walk walk_fuel g (row + dr) (col + dc) dr dc player 1)
       (\<lambda>count. walk walk_fuel g (row - dr) (col - dc) (- dr) (- dc) player count)"

subsection \<open>Position evaluation\<close>

definition directions :: "(int \<times> int) list" where
  "directions = [(0, 1), (1, 0), (1, 1), (1, - 1)]"

definition evaluate_direction :: "grid \<Rightarrow> int \<Rightarrow> int \<Rightarrow> int \<Rightarrow> int \<Rightarrow> int \<Rightarrow> error + int" where
  "evaluate_direction g row col dr dc player =
     ebind (count_consecutive g row col dr dc player)
       (\<lambda>count. Inr (if 5 \<le> count then 100000
                      else if count = 4 then 10000
                      else if count = 3 then 1000
                      else if count = 2 then 100
                      else 0))"

text \<open>\<^verbatim>\<open>for dr, dc in directions: score += self._evaluate_direction(...)\<close>\<close>

fun evaluate_position_loop ::
  "grid \<Rightarrow> int \<Rightarrow> int \<Rightarrow> int \<Rightarrow> (int \<times> int) list \<Rightarrow> int \<Rightarrow> error + int" where
  "evaluate_position_loop g row col player [] score = Inr score"
| "evaluate_position_loop g row col player ((dr, dc) # ds) score =
     (case evaluate_direction g row col dr dc player of
        Inl e \<Rightarrow> Inl e
      | Inr s \<Rightarrow> evaluate_position_loop g row col player ds (score + s))"

definition evaluate_position :: "grid \<Rightarrow> int \<Rightarrow> int \<Rightarrow> int \<Rightarrow> error + int" where
  "evaluate_position g row col player = evaluate_position_loop g row col player directions 0"

subsection \<open>Loops over cells\<close>

text \<open>
  \<^verbatim>\<open>for i in range(self.board_size): for j in range(self.board_size)\<close> visits the cells in
  row-major order.
\<close>

definition all_cells :: "move list" where
  "all_cells = List.product [0..board_size - 1] [0..board_size - 1]"

text \<open>
  Two loop shapes of the source, over a body that may raise:
  \<^verbatim>\<open>for x in xs: if t(x): out.append(x)\<close> and
  \<^verbatim>\<open>for x in xs: if t(x): return True\<close> followed by \<^verbatim>\<open>return False\<close>.
\<close>

fun filter_e :: "('a \<Rightarrow> error + bool) \<Rightarrow> 'a list \<Rightarrow> error + 'a list" where
  "filter_e t [] = Inr []"
| "filter_e t (x # xs) =
     (case t x of
        Inl e \<Rightarrow> Inl e
      | Inr b \<Rightarrow> (case filter_e t xs of
                    Inl e \<Rightarrow> Inl e
                  | Inr ys \<Rightarrow> Inr (if b then x # ys else ys)))"

fun any_e :: "('a \<Rightarrow> error + bool) \<Rightarrow> 'a list \<Rightarrow> error + bool" where
  "any_e t [] = Inr False"
| "any_e t (x # xs) =
     (case t x of
        Inl e \<Rightarrow> Inl e
      | Inr b \<Rightarrow> if b then Inr True else any_e t xs)"

subsection \<open>Five in a row\<close>

fun check_five_loop :: "grid \<Rightarrow> int \<Rightarrow> int \<Rightarrow> int \<Rightarrow> (int \<times> int) list \<Rightarrow> error + bool" where
  "check_five_loop g row col player [] = Inr False"
| "check_five_loop g row col player ((dr, dc) # ds) =
     (case walk walk_fuel g (row + dr) (col + dc) dr dc player 1 of
        Inl e \<Rightarrow> Inl e
      | Inr count1 \<Rightarrow>
          (case walk walk_fuel g (row - dr) (col - dc) (- dr) (- dc) player count1 of
             Inl e \<Rightarrow> Inl e
           | Inr count \<Rightarrow> if 5 \<le> count then Inr True
                          else check_five_loop g row col player ds))"

definition check_five_in_row :: "grid \<Rightarrow> int \<Rightarrow> int \<Rightarrow> int \<Rightarrow> error + bool" where
  "check_five_in_row g row col player = check_five_loop g row col player directions"

definition is_game_over :: "grid \<Rightarrow> error + bool" where
  "is_game_over g =
     any_e (\<lambda>(i, j). ebind (cell g i j)
                       (\<lambda>v. if v \<noteq> 0 then check_five_in_row g i j v else Inr False))
       all_cells"

subsection \<open>Move generation\<close>

definition get_empty_positions :: "grid \<Rightarrow> error + move list" where
  "get_empty_positions g =
     filter_e (\<lambda>(i, j). ebind (cell g i j) (\<lambda>v. Inr (v = 0))) all_cells"

text \<open>
  \<^verbatim>\<open>(i != row or j != col) and board[i][j] != 0\<close>: the board is read only when the first
  conjunct holds.
\<close>

definition has_neighbors :: "grid \<Rightarrow> move \<Rightarrow> error + bool" where
  "has_neighbors g pos =
     (case pos of (row, col) \<Rightarrow>
        any_e (\<lambda>(i, j). if i \<noteq> row \<or> j \<noteq> col
                         then ebind (cell g i j) (\<lambda>v. Inr (v \<noteq> 0))
                         else Inr False)
          (List.product [max 0 (row - 2)..min board_size (row + 3) - 1]
                        [max 0 (col - 2)..min board_size (col + 3) - 1]))"

definition get_candidate_moves :: "grid \<Rightarrow> error + move list" where
  "get_candidate_moves g =
     ebind (get_empty_positions g) (\<lambda>empty_positions.
     ebind (filter_e (has_neighbors g) empty_positions) (\<lambda>candidates.
       let center = board_size div 2;
           candidates' =
             (if candidates = [] \<and> empty_positions \<noteq> []
              then filter (\<lambda>pos. \<bar>fst pos - center\<bar> \<le> 2 \<and> \<bar>snd pos - center\<bar> \<le> 2)
                     empty_positions
              else candidates)
       in Inr (if candidates' \<noteq> [] then candidates' else empty_positions)))"

subsection \<open>Threat detection\<close>

text \<open>
  The scan of \<^verbatim>\<open>_find_winning_move\<close>; \<^verbatim>\<open>_find_defensive_move\<close> is the same scan for
  \<^verbatim>\<open>3 - current_player\<close>. The board is passed through and returned.
\<close>

fun winning_loop :: "grid \<Rightarrow> int \<Rightarrow> move list \<Rightarrow> error + (move option \<times> grid)" where
  "winning_loop g player [] = Inr (None, g)"
| "winning_loop g player ((i, j) # cs) =
     (case cell g i j of
        Inl e \<Rightarrow> Inl e
      | Inr v \<Rightarrow>
          if v = 0
          then (case put g i j player of
                  Inl e \<Rightarrow> Inl e
                | Inr g1 \<Rightarrow>
                    (case check_five_in_row g1 i j player of
                       Inl e \<Rightarrow> Inl e
                     | Inr five \<Rightarrow>
                         if five
                         then (case put g1 i j 0 of
                                 Inl e \<Rightarrow> Inl e
                               | Inr g2 \<Rightarrow> Inr (Some (i, j), g2))
                         else (case put g1 i j 0 of
                                 Inl e \<Rightarrow> Inl e
                               | Inr g2 \<Rightarrow> winning_loop g2 player cs)))
          else winning_loop g player cs)"

definition find_winning_move :: "grid \<Rightarrow> int \<Rightarrow> error + (move option \<times> grid)" where
  "find_winning_move g player = winning_loop g player all_cells"

definition find_defensive_move :: "grid \<Rightarrow> int \<Rightarrow> error + (move option \<times> grid)" where
  "find_defensive_move g current_player = winning_loop g (3 - current_player) all_cells"

subsection \<open>Board evaluation\<close>

fun evaluate_board_loop :: "grid \<Rightarrow> int \<Rightarrow> move list \<Rightarrow> int \<Rightarrow> error + int" where
  "evaluate_board_loop g player [] score = Inr score"
| "evaluate_board_loop g player ((i, j) # cs) score =
     (case cell g i j of
        Inl e \<Rightarrow> Inl e
      | Inr v \<Rightarrow>
          if v = player
          then (case evaluate_position g i j player of
                  Inl e \<Rightarrow> Inl e
                | Inr s \<Rightarrow> evaluate_board_loop g player cs (score + s))
          else if v = 3 - player
          then (case evaluate_position g i j (3 - player) of
                  Inl e \<Rightarrow> Inl e
                | Inr s \<Rightarrow> evaluate_board_loop g player cs (score - s))
          else evaluate_board_loop g player cs score)"

definition evaluate_board :: "grid \<Rightarrow> int \<Rightarrow> error + int" where
  "evaluate_board g player = evaluate_board_loop g player all_cells 0"

text \<open>
  \<^verbatim>\<open>_evaluate_move_threat\<close> places the stone, sums the weights of the four directions and
  takes the stone back.
\<close>

fun threat_loop :: "grid \<Rightarrow> int \<Rightarrow> int \<Rightarrow> int \<Rightarrow> (int \<times> int) list \<Rightarrow> int \<Rightarrow> error + int" where
  "threat_loop g row col player [] threat_score = Inr threat_score"
| "threat_loop g row col player ((dr, dc) # ds) threat_score =
     (case count_consecutive g row col dr dc player of
        Inl e \<Rightarrow> Inl e
      | Inr count \<Rightarrow>
          threat_loop g row col player ds
            (if 4 \<le> count then threat_score + 1000
             else if count = 3 then threat_score + 100
             else if count = 2 then threat_score + 10
             else threat_score))"

definition evaluate_move_threat :: "grid \<Rightarrow> move \<Rightarrow> int \<Rightarrow> error + (int \<times> grid)" where
  "evaluate_move_threat g mv player =
     (case mv of (row, col) \<Rightarrow>
        ebind (put g row col player) (\<lambda>g1.
        ebind (threat_loop g1 row col player directions 0) (\<lambda>threat_score.
        ebind (put g1 row col 0) (\<lambda>g2.
          Inr (threat_score, g2)))))"

subsection \<open>Scores\<close>

text \<open>
  A search score is a Python integer or one of the floats \<^verbatim>\<open>-math.inf\<close>, \<^verbatim>\<open>math.inf\<close>.
  Python compares them exactly, so the order is that of the integers with a least and a
  greatest element added.
\<close>

datatype 'a ext = NInf | Fin 'a | PInf

instantiation ext :: (linorder) linorder
begin

fun less_eq_ext :: "'a ext \<Rightarrow> 'a ext \<Rightarrow> bool" where
  "less_eq_ext NInf y = True"
| "less_eq_ext (Fin a) NInf = False"
| "less_eq_ext (Fin a) (Fin b) = (a \<le> b)"
| "less_eq_ext (Fin a) PInf = True"
| "less_eq_ext PInf PInf = True"
| "less_eq_ext PInf NInf = False"
| "less_eq_ext PInf (Fin b) = False"

definition less_ext :: "'a ext \<Rightarrow> 'a ext \<Rightarrow> bool" where
  "less_ext x y \<longleftrightarrow> x \<le> y \<and> \<not> y \<le> x"

instance
proof
  fix x y z :: "'a ext"
  show "(x < y) = (x \<le> y \<and> \<not> y \<le> x)" by (simp add: less_ext_def)
  show "x \<le> x" by (cases x) auto
  show "x \<le> y \<Longrightarrow> y \<le> z \<Longrightarrow> x \<le> z" by (cases x; cases y; cases z) auto
  show "x \<le> y \<Longrightarrow> y \<le> x \<Longrightarrow> x = y" by (cases x; cases y) auto
  show "x \<le> y \<or> y \<le> x" by (cases x; cases y) auto
qed

end

subsection \<open>Minimax with alpha-beta pruning\<close>

text \<open>
  \<^verbatim>\<open>_minimax\<close> with a depth that counts down to 0. The two loops over the candidates take
  the depth of the recursive call, \<^verbatim>\<open>depth - 1\<close>. Each returns the score and the board.
\<close>

function (sequential) minimax :: "nat \<Rightarrow> bool \<Rightarrow> int \<Rightarrow> int ext \<Rightarrow> int ext \<Rightarrow> grid \<Rightarrow> error + (int ext \<times> grid)"
and max_loop ::
  "nat \<Rightarrow> int \<Rightarrow> move list \<Rightarrow> int ext \<Rightarrow> int ext \<Rightarrow> int ext \<Rightarrow> grid \<Rightarrow> error + (int ext \<times> grid)"
and min_loop ::
  "nat \<Rightarrow> int \<Rightarrow> move list \<Rightarrow> int ext \<Rightarrow> int ext \<Rightarrow> int ext \<Rightarrow> grid \<Rightarrow> error + (int ext \<times> grid)"
where
  "minimax 0 is_maximizing player alpha beta board =
     (case evaluate_board board player of
        Inl e \<Rightarrow> Inl e
      | Inr s \<Rightarrow> Inr (Fin s, board))"
| "minimax (Suc d) is_maximizing player alpha beta board =
     (case is_game_over board of
        Inl e \<Rightarrow> Inl e
      | Inr over \<Rightarrow>
          if over
          then (case evaluate_board board player of
                  Inl e \<Rightarrow> Inl e
                | Inr s \<Rightarrow> Inr (Fin s, board))
          else (case get_candidate_moves board of
                  Inl e \<Rightarrow> Inl e
                | Inr moves \<Rightarrow>
                    if is_maximizing
                    then max_loop d player moves NInf alpha beta board
                    else min_loop d player moves PInf alpha beta board))"
| "max_loop d player [] max_eval alpha beta board = Inr (max_eval, board)"
| "max_loop d player ((row, col) # moves) max_eval alpha beta board =
     (case put board row col player of
        Inl e \<Rightarrow> Inl e
      | Inr b1 \<Rightarrow>
          (case minimax d False player alpha beta b1 of
             Inl e \<Rightarrow> Inl e
           | Inr (eval, b2) \<Rightarrow>
               (case put b2 row col 0 of
                  Inl e \<Rightarrow> Inl e
                | Inr b3 \<Rightarrow>
                    if beta \<le> max alpha eval
                    then Inr (max max_eval eval, b3)
                    else max_loop d player moves (max max_eval eval) (max alpha eval) beta b3)))"
| "min_loop d player [] min_eval alpha beta board = Inr (min_eval, board)"
| "min_loop d player ((row, col) # moves) min_eval alpha beta board =
     (case put board row col (3 - player) of
        Inl e \<Rightarrow> Inl e
      | Inr b1 \<Rightarrow>
          (case minimax d True player alpha beta b1 of
             Inl e \<Rightarrow> Inl e
           | Inr (eval, b2) \<Rightarrow>
               (case put b2 row col 0 of
                  Inl e \<Rightarrow> Inl e
                | Inr b3 \<Rightarrow>
                    if min beta eval \<le> alpha
                    then Inr (min min_eval eval, b3)
                    else min_loop d player moves (min min_eval eval) alpha (min beta eval) b3)))"
  by pat_completeness auto

termination
  by (relation "measures
        [\<lambda>x. case x of Inl (d, _) \<Rightarrow> d | Inr (Inl (d, _)) \<Rightarrow> d | Inr (Inr (d, _)) \<Rightarrow> d,
         \<lambda>x. case x of Inl _ \<Rightarrow> 0
                | Inr (Inl (_, _, ms, _)) \<Rightarrow> Suc (length ms)
                | Inr (Inr (_, _, ms, _)) \<Rightarrow> Suc (length ms)]") auto

subsection \<open>Root move selection\<close>

text \<open>\<^verbatim>\<open>candidate_moves[0]\<close>, which raises on the empty list.\<close>

definition first_candidate :: "move list \<Rightarrow> error + move" where
  "first_candidate moves = (case moves of [] \<Rightarrow> Inl (IndexError Candidates) | m # _ \<Rightarrow> Inr m)"

text \<open>
  The loop of \<^verbatim>\<open>_intermediate_move\<close> (depth 2) and of \<^verbatim>\<open>_advance_move\<close> (depth 4), which
  differ in the depth only.
\<close>

fun root_loop ::
  "nat \<Rightarrow> int \<Rightarrow> move list \<Rightarrow> int ext \<Rightarrow> move option \<Rightarrow> grid \<Rightarrow> error + (move option \<times> grid)" where
  "root_loop depth player [] best_score best_move board = Inr (best_move, board)"
| "root_loop depth player ((row, col) # moves) best_score best_move board =
     (case put board row col player of
        Inl e \<Rightarrow> Inl e
      | Inr b1 \<Rightarrow>
          (case minimax depth False player NInf PInf b1 of
             Inl e \<Rightarrow> Inl e
           | Inr (score, b2) \<Rightarrow>
               (case put b2 row col 0 of
                  Inl e \<Rightarrow> Inl e
                | Inr b3 \<Rightarrow>
                    if best_score < score
                    then root_loop depth player moves score (Some (row, col)) b3
                    else root_loop depth player moves best_score best_move b3)))"

text \<open>
  \<^verbatim>\<open>return best_move or candidate_moves[0]\<close>: a move is a non-empty tuple, hence true, so
  the second operand is evaluated only when \<^verbatim>\<open>best_move\<close> is \<^verbatim>\<open>None\<close>.
\<close>

definition best_or_first :: "move option \<Rightarrow> move list \<Rightarrow> grid \<Rightarrow> error + (move \<times> grid)" where
  "best_or_first best_move candidate_moves board =
     (case best_move of
        Some m \<Rightarrow> Inr (m, board)
      | None \<Rightarrow> ebind (first_candidate candidate_moves) (\<lambda>m. Inr (m, board)))"

definition intermediate_move :: "grid \<Rightarrow> int \<Rightarrow> error + (move \<times> grid)" where
  "intermediate_move board current_player =
     ebind (get_candidate_moves board) (\<lambda>candidate_moves.
     ebind (root_loop 2 current_player candidate_moves NInf None board) (\<lambda>(best_move, board').
       best_or_first best_move candidate_moves board'))"

definition advance_move :: "grid \<Rightarrow> int \<Rightarrow> error + (move \<times> grid)" where
  "advance_move board current_player =
     ebind (get_candidate_moves board) (\<lambda>candidate_moves.
     ebind (root_loop 4 current_player candidate_moves NInf None board) (\<lambda>(best_move, board').
       best_or_first best_move candidate_moves board'))"

subsection \<open>The Expert tier\<close>

fun scored_loop :: "grid \<Rightarrow> int \<Rightarrow> move list \<Rightarrow> error + ((int \<times> move) list \<times> grid)" where
  "scored_loop g player [] = Inr ([], g)"
| "scored_loop g player (mv # moves) =
     (case evaluate_move_threat g mv player of
        Inl e \<Rightarrow> Inl e
      | Inr (score, g1) \<Rightarrow>
          (case scored_loop g1 player moves of
             Inl e \<Rightarrow> Inl e
           | Inr (rest, g2) \<Rightarrow> Inr ((score, mv) # rest, g2)))"

text \<open>
  \<^verbatim>\<open>scored_moves.sort(reverse=True, key=lambda x: x[0])\<close> is a stable sort by descending
  score (Python keeps the original order of equal keys also with \<^verbatim>\<open>reverse=True\<close>):
  the stable insertion sort on the negated score.
\<close>

definition get_priority_moves :: "grid \<Rightarrow> int \<Rightarrow> error + (move list \<times> grid)" where
  "get_priority_moves g player =
     ebind (get_candidate_moves g) (\<lambda>candidates.
     ebind (scored_loop g player candidates) (\<lambda>(scored_moves, g').
       Inr (map snd (take 10 (sort_key (\<lambda>x. - fst x) scored_moves)), g')))"

text \<open>
  \<^verbatim>\<open>_position_weight\<close> and the addition \<^verbatim>\<open>score += self._position_weight(row, col)\<close> are
  floating-point computations (\<^verbatim>\<open>math.sqrt\<close>, float addition). They are parameters of the
  model: \<open>position_weight\<close> is the double the method returns, as a real number, and
  \<open>add_weight\<close> is the float sum of a search score and such a weight. No property below
  depends on what they compute.
\<close>

record floats =
  position_weight :: "int \<Rightarrow> int \<Rightarrow> real"
  add_weight :: "int ext \<Rightarrow> real \<Rightarrow> real ext"

fun enhanced_loop ::
  "floats \<Rightarrow> int \<Rightarrow> move list \<Rightarrow> real ext \<Rightarrow> move option \<Rightarrow> grid \<Rightarrow> error + (move option \<times> grid)" where
  "enhanced_loop fl player [] best_score best_move board = Inr (best_move, board)"
| "enhanced_loop fl player ((row, col) # moves) best_score best_move board =
     (case put board row col player of
        Inl e \<Rightarrow> Inl e
      | Inr b1 \<Rightarrow>
          (case minimax 6 False player NInf PInf b1 of
             Inl e \<Rightarrow> Inl e
           | Inr (score, b2) \<Rightarrow>
               (case put b2 row col 0 of
                  Inl e \<Rightarrow> Inl e
                | Inr b3 \<Rightarrow>
                    if best_score < add_weight fl score (position_weight fl row col)
                    then enhanced_loop fl player moves
                           (add_weight fl score (position_weight fl row col)) (Some (row, col)) b3
                    else enhanced_loop fl player moves best_score best_move b3)))"

definition enhanced_minimax_move :: "floats \<Rightarrow> grid \<Rightarrow> int \<Rightarrow> error + (move \<times> grid)" where
  "enhanced_minimax_move fl board current_player =
     ebind (get_priority_moves board current_player) (\<lambda>(candidate_moves, b1).
     ebind (enhanced_loop fl current_player candidate_moves NInf None b1) (\<lambda>(best_move, b2).
       best_or_first best_move candidate_moves b2))"

text \<open>
  \<^verbatim>\<open>_expert_move\<close>, with the search it falls through to as an argument: \<open>expert_move\<close>
  passes \<^verbatim>\<open>_enhanced_minimax_move\<close>.
\<close>

definition expert_move_with ::
  "(grid \<Rightarrow> int \<Rightarrow> error + (move \<times> grid)) \<Rightarrow> grid \<Rightarrow> int \<Rightarrow> error + (move \<times> grid)" where
  "expert_move_with search board current_player =
     ebind (find_winning_move board current_player) (\<lambda>(winning_move, b1).
       case winning_move of
         Some m \<Rightarrow> Inr (m, b1)
       | None \<Rightarrow>
           ebind (find_winning_move b1 (3 - current_player)) (\<lambda>(defensive_move, b2).
             case defensive_move of
               Some m \<Rightarrow> Inr (m, b2)
             | None \<Rightarrow> search b2 current_player))"

definition expert_move :: "floats \<Rightarrow> grid \<Rightarrow> int \<Rightarrow> error + (move \<times> grid)" where
  "expert_move fl = expert_move_with (enhanced_minimax_move fl)"

subsection \<open>The Beginner tier and the dispatch\<close>

text \<open>
  The two random draws of \<^verbatim>\<open>_beginner_move\<close> are arguments: \<open>defend\<close> is the outcome of
  \<^verbatim>\<open>random.random() < 0.3\<close>, and \<open>pick\<close> selects the element \<^verbatim>\<open>random.choice\<close> returns.
  \<^verbatim>\<open>random.choice\<close> raises \<^verbatim>\<open>IndexError\<close> on an empty sequence.
\<close>

record rng =
  defend :: bool
  pick :: nat

definition random_choice :: "nat \<Rightarrow> 'a list \<Rightarrow> error + 'a" where
  "random_choice k xs = (if xs = [] then Inl (IndexError Choice) else Inr (xs ! (k mod length xs)))"

definition beginner_move :: "rng \<Rightarrow> grid \<Rightarrow> int \<Rightarrow> error + (move \<times> grid)" where
  "beginner_move r board current_player =
     ebind (get_empty_positions board) (\<lambda>empty_positions.
       if defend r
       then ebind (find_defensive_move board current_player) (\<lambda>(defensive_move, b1).
              case defensive_move of
                Some m \<Rightarrow> Inr (m, b1)
              | None \<Rightarrow> ebind (random_choice (pick r) empty_positions) (\<lambda>m. Inr (m, b1)))
       else ebind (random_choice (pick r) empty_positions) (\<lambda>m. Inr (m, board)))"

datatype AIDifficulty = BEGINNER | INTERMEDIATE | ADVANCE | EXPERT

definition get_move :: "AIDifficulty \<Rightarrow> rng \<Rightarrow> floats \<Rightarrow> grid \<Rightarrow> int \<Rightarrow> error + (move \<times> grid)" where
  "get_move difficulty r fl board current_player =
     (case difficulty of
        BEGINNER \<Rightarrow> beginner_move r board current_player
      | INTERMEDIATE \<Rightarrow> intermediate_move board current_player
      | ADVANCE \<Rightarrow> advance_move board current_player
      | EXPERT \<Rightarrow> expert_move fl board current_player)"

section \<open>Auxiliary notions for the proofs\<close>

text \<open>An empty 15 x 15 board, used for the concrete instances below.\<close>

definition empty_board :: grid where
  "empty_board = replicate 15 (replicate 15 0)"

text \<open>The empty board with a stone of player 2 on the centre cell.\<close>

definition centre_stone_board :: grid where
  "centre_stone_board = empty_board[7 := (empty_board ! 7)[7 := 2]]"

text \<open>An upper bound on the rounds the run-length loop can still make from \<open>(r, c)\<close>.\<close>

definition steps_left :: "int \<Rightarrow> int \<Rightarrow> int \<Rightarrow> int \<Rightarrow> nat" where
  "steps_left r c dr dc =
     (if \<not> in_board r c then 0
      else if 0 < dr then nat (board_size - r)
      else if dr < 0 then nat (r + 1)
      else if 0 < dc then nat (board_size - c)
      else nat (c + 1))"

subsection \<open>The candidate rule of the specification\<close>

text \<open>
  The empty cells of a board in row-major order, the cells with a stone within Chebyshev
  distance 2 (the cell itself excluded), and the three-stage rule: the empty cells near a
  stone; failing that, the empty cells within Chebyshev distance 2 of the centre; failing
  that, all empty cells.
\<close>

definition empties :: "grid \<Rightarrow> move list" where
  "empties g = filter (\<lambda>(r, c). cell g r c = Inr 0) all_cells"

definition near_stone :: "grid \<Rightarrow> move \<Rightarrow> bool" where
  "near_stone g pos \<longleftrightarrow>
     (\<exists>(i, j) \<in> set all_cells.
        (i, j) \<noteq> pos \<and> \<bar>i - fst pos\<bar> \<le> 2 \<and> \<bar>j - snd pos\<bar> \<le> 2 \<and> cell g i j \<noteq> Inr 0)"

definition near_centre :: "move \<Rightarrow> bool" where
  "near_centre pos \<longleftrightarrow> \<bar>fst pos - 7\<bar> \<le> 2 \<and> \<bar>snd pos - 7\<bar> \<le> 2"

definition three_stage :: "grid \<Rightarrow> move list" where
  "three_stage g =
     (if filter (near_stone g) (empties g) \<noteq> [] then filter (near_stone g) (empties g)
      else if filter near_centre (empties g) \<noteq> [] then filter near_centre (empties g)
      else empties g)"

subsection \<open>Five in a row, as the specification states it\<close>

text \<open>
  \<open>ray g r c dr dc p k\<close>: the \<open>k\<close> cells met from \<open>(r, c)\<close> on in steps of \<open>(dr, dc)\<close>
  lie on the board and hold \<open>p\<close>.
  \<open>line_of_five g r c dr dc p k\<close>: five consecutive cells along \<open>(dr, dc)\<close>, of which
  \<open>(r, c)\<close> is the one with index \<open>k\<close>, lie on the board and hold \<open>p\<close>.
  \<open>five_through g r c p\<close>: a run of at least five stones of \<open>p\<close> passes through \<open>(r, c)\<close>
  along one of the four axes.
  \<open>completes_five g p (r, c)\<close>: the cell is empty, and with a stone of \<open>p\<close> on it such a
  run passes through it.
\<close>

definition ray :: "grid \<Rightarrow> int \<Rightarrow> int \<Rightarrow> int \<Rightarrow> int \<Rightarrow> int \<Rightarrow> nat \<Rightarrow> bool" where
  "ray g r c dr dc p k \<longleftrightarrow>
     (\<forall>j < k. in_board (r + int j * dr) (c + int j * dc) \<and>
              cell g (r + int j * dr) (c + int j * dc) = Inr p)"

definition line_of_five :: "grid \<Rightarrow> int \<Rightarrow> int \<Rightarrow> int \<Rightarrow> int \<Rightarrow> int \<Rightarrow> int \<Rightarrow> bool" where
  "line_of_five g r c dr dc p k \<longleftrightarrow>
     (\<forall>t \<in> {0..4}. in_board (r + (t - k) * dr) (c + (t - k) * dc) \<and>
                   cell g (r + (t - k) * dr) (c + (t - k) * dc) = Inr p)"

definition five_through :: "grid \<Rightarrow> int \<Rightarrow> int \<Rightarrow> int \<Rightarrow> bool" where
  "five_through g r c p \<longleftrightarrow>
     (\<exists>(dr, dc) \<in> set directions. \<exists>k \<in> {0..4}. line_of_five g r c dr dc p k)"

definition completes_five :: "grid \<Rightarrow> int \<Rightarrow> move \<Rightarrow> bool" where
  "completes_five g p pos \<longleftrightarrow>
     cell g (fst pos) (snd pos) = Inr 0 \<and>
     (case put g (fst pos) (snd pos) p of
        Inl e \<Rightarrow> False
      | Inr g' \<Rightarrow> five_through g' (fst pos) (snd pos) p)"

definition first_winning :: "grid \<Rightarrow> int \<Rightarrow> move option" where
  "first_winning g p = find (completes_five g p) all_cells"

text \<open>Row-major order on cells: smaller row, or the same row and a smaller column.\<close>

definition row_major_less :: "move \<Rightarrow> move \<Rightarrow> bool" where
  "row_major_less a b \<longleftrightarrow> fst a < fst b \<or> (fst a = fst b \<and> snd a < snd b)"

text \<open>The position of the specification's scenario: Black on (7,7), (7,8), (7,9), (7,10).\<close>

definition four_board :: grid where
  "four_board = empty_board[7 := [0, 0, 0, 0, 0, 0, 0, 1, 1, 1, 1, 0, 0, 0, 0]]"

text \<open>
  What a move selection can return on a 15 x 15 board: on a board without an empty cell
  the \<^verbatim>\<open>IndexError\<close> raised at the given place, otherwise an empty cell together with the
  board as it was.
\<close>

definition move_outcome :: "place \<Rightarrow> grid \<Rightarrow> error + (move \<times> grid) \<Rightarrow> bool" where
  "move_outcome pl g res \<longleftrightarrow>
     (if empties g = [] then res = Inl (IndexError pl)
      else \<exists>m \<in> set (empties g). res = Inr (m, g))"

text \<open>
  A board without an empty cell and without five in a row: rows of the pattern 1 1 2 2,
  shifted by two columns from one row to the next.
\<close>

definition draw_board :: grid where
  "draw_board = map (\<lambda>i. map (\<lambda>j. if (j + 2 * i) mod 4 < 2 then 1 else 2) [0..14]) [0..14]"

text \<open>Concrete random draws and float operations for the instances below.\<close>

definition rng0 :: rng where
  "rng0 = \<lparr>defend = False, pick = 0\<rparr>"

definition rng1 :: rng where
  "rng1 = \<lparr>defend = True, pick = 5\<rparr>"

definition floats0 :: floats where
  "floats0 = \<lparr>position_weight = (\<lambda>row col. 0), add_weight = (\<lambda>s w. case s of NInf \<Rightarrow> NInf | Fin i \<Rightarrow> Fin (real_of_int i + w) | PInf \<Rightarrow> PInf)\<rparr>"

section \<open>Properties\<close>

subsection \<open>Board reads and writes\<close>

lemma cell_wf: "wf_grid g \<Longrightarrow> in_board r c \<Longrightarrow> cell g r c = Inr (g ! nat r ! nat c)"
  by (auto simp: wf_grid_def in_board_def cell_def)

lemma cell_put_other:
  assumes "put g r c v = Inr g'" and "r' \<noteq> r \<or> c' \<noteq> c"
  shows "cell g' r' c' = cell g r' c'"
  using assms
  by (auto simp: put_def cell_def nth_list_update split: if_splits)

lemma cell_put_same:
  assumes "put g r c v = Inr g'"
  shows "cell g' r c = Inr v"
  using assms
  by (auto simp: put_def cell_def nth_list_update split: if_splits)

lemma wf_empty_board: "wf_grid empty_board"
  by (simp add: wf_grid_def empty_board_def board_size_def)

lemma put_wf:
  assumes "wf_grid g" and "in_board r c"
  shows "\<exists>g'. put g r c v = Inr g' \<and> wf_grid g'"
proof -
  have len: "nat r < length g" "int (length (g ! nat r)) = board_size"
    using assms by (auto simp: wf_grid_def in_board_def)
  have "put g r c v = Inr (g[nat r := (g ! nat r)[nat c := v]])"
    using assms len by (auto simp: put_def in_board_def wf_grid_def)
  moreover have "wf_grid (g[nat r := (g ! nat r)[nat c := v]])"
    using assms(1) len by (auto simp: wf_grid_def dest!: set_update_subset_insert[THEN subsetD])
  ultimately show ?thesis by blast
qed

lemma put_undo:
  assumes "cell g r c = Inr w" and "put g r c v = Inr g1"
  shows "put g1 r c w = Inr g"
  using assms
  by (auto simp: cell_def put_def split: if_splits)


subsection \<open>The run-length loop\<close>

lemma walk_agree:
  assumes "\<And>j::nat. cell g' (r + int j * dr) (c + int j * dc) = cell g (r + int j * dr) (c + int j * dc)"
  shows "walk n g' r c dr dc p cnt = walk n g r c dr dc p cnt"
  using assms
proof (induction n arbitrary: r c cnt)
  case 0
  then show ?case by simp
next
  case (Suc n)
  have here: "cell g' r c = cell g r c" using Suc.prems[of 0] by simp
  have "walk n g' (r + dr) (c + dc) dr dc p (cnt + 1) = walk n g (r + dr) (c + dc) dr dc p (cnt + 1)"
  proof (rule Suc.IH)
    fix j :: nat
    show "cell g' (r + dr + int j * dr) (c + dc + int j * dc) = cell g (r + dr + int j * dr) (c + dc + int j * dc)"
      using Suc.prems[of "Suc j"] by (simp add: algebra_simps)
  qed
  with here show ?case by (simp split: sum.splits)
qed

lemma walk_total_aux:
  assumes "wf_grid g" and "dr \<noteq> 0 \<or> dc \<noteq> 0"
  shows "steps_left r c dr dc < n \<Longrightarrow> \<exists>m. walk n g r c dr dc p cnt = Inr m \<and> cnt \<le> m"
proof (induction n arbitrary: r c cnt)
  case 0
  then show ?case by simp
next
  case (Suc n)
  show ?case
  proof (cases "in_board r c")
    case False
    then show ?thesis by simp
  next
    case True
    have "steps_left (r + dr) (c + dc) dr dc < n"
      using True Suc.prems assms(2)
      by (auto simp: steps_left_def in_board_def board_size_def split: if_splits)
    from Suc.IH[OF this, of "cnt + 1"] obtain m where
      "walk n g (r + dr) (c + dc) dr dc p (cnt + 1) = Inr m" "cnt + 1 \<le> m" by blast
    then show ?thesis using True cell_wf[OF assms(1) True] by auto
  qed
qed

lemma walk_total:
  assumes "wf_grid g" and "dr \<noteq> 0 \<or> dc \<noteq> 0"
  shows "\<exists>m. walk walk_fuel g r c dr dc p cnt = Inr m \<and> cnt \<le> m"
proof (rule walk_total_aux[OF assms])
  show "steps_left r c dr dc < walk_fuel"
    by (auto simp: steps_left_def in_board_def board_size_def walk_fuel_def)
qed

lemma count_consecutive_total:
  assumes "wf_grid g" and "dr \<noteq> 0 \<or> dc \<noteq> 0"
  shows "\<exists>n. count_consecutive g row col dr dc p = Inr n \<and> 1 \<le> n"
proof -
  obtain m where m: "walk walk_fuel g (row + dr) (col + dc) dr dc p 1 = Inr m" "1 \<le> m"
    using walk_total[OF assms] by blast
  have "- dr \<noteq> 0 \<or> - dc \<noteq> 0" using assms(2) by simp
  from walk_total[OF assms(1) this] obtain k where
    "walk walk_fuel g (row - dr) (col - dc) (- dr) (- dc) p m = Inr k" "m \<le> k" by blast
  with m show ?thesis by (auto simp: count_consecutive_def ebind_def)
qed

lemma count_consecutive_anchor:
  assumes "put g row col v = Inr g'" and nz: "dr \<noteq> 0 \<or> dc \<noteq> 0"
  shows "count_consecutive g' row col dr dc p = count_consecutive g row col dr dc p"
proof -
  have f: "walk n g' (row + dr) (col + dc) dr dc p cnt = walk n g (row + dr) (col + dc) dr dc p cnt" for n cnt
  proof (rule walk_agree)
    fix j :: nat
    have "row + dr + int j * dr = row + (int j + 1) * dr" by (simp add: algebra_simps)
    moreover have "col + dc + int j * dc = col + (int j + 1) * dc" by (simp add: algebra_simps)
    ultimately have "row + dr + int j * dr \<noteq> row \<or> col + dc + int j * dc \<noteq> col"
      using nz by auto
    then show "cell g' (row + dr + int j * dr) (col + dc + int j * dc) = cell g (row + dr + int j * dr) (col + dc + int j * dc)"
      by (rule cell_put_other[OF assms(1)])
  qed
  have b: "walk n g' (row - dr) (col - dc) (- dr) (- dc) p cnt = walk n g (row - dr) (col - dc) (- dr) (- dc) p cnt" for n cnt
  proof (rule walk_agree)
    fix j :: nat
    have "row - dr + int j * - dr = row - (int j + 1) * dr" by (simp add: algebra_simps)
    moreover have "col - dc + int j * - dc = col - (int j + 1) * dc" by (simp add: algebra_simps)
    ultimately have "row - dr + int j * - dr \<noteq> row \<or> col - dc + int j * - dc \<noteq> col"
      using nz by auto
    then show "cell g' (row - dr + int j * - dr) (col - dc + int j * - dc) = cell g (row - dr + int j * - dr) (col - dc + int j * - dc)"
      by (rule cell_put_other[OF assms(1)])
  qed
  show ?thesis by (simp add: count_consecutive_def f b)
qed

lemma evaluate_position_loop_anchor:
  assumes "put g row col v = Inr g'" and "\<forall>(dr, dc) \<in> set ds. dr \<noteq> 0 \<or> dc \<noteq> 0"
  shows "evaluate_position_loop g' row col p ds s = evaluate_position_loop g row col p ds s"
  using assms(2)
proof (induction ds arbitrary: s)
  case Nil
  then show ?case by simp
next
  case (Cons d ds)
  obtain dr dc where d: "d = (dr, dc)" by (cases d)
  have "dr \<noteq> 0 \<or> dc \<noteq> 0" using Cons.prems d by simp
  then have "evaluate_direction g' row col dr dc p = evaluate_direction g row col dr dc p"
    by (simp add: evaluate_direction_def count_consecutive_anchor[OF assms(1)])
  moreover have "evaluate_position_loop g' row col p ds t = evaluate_position_loop g row col p ds t" for t
    using Cons by simp
  ultimately show ?case by (simp add: d split: sum.splits)
qed

lemma evaluate_position_anchor:
  assumes "put g row col v = Inr g'"
  shows "evaluate_position g' row col p = evaluate_position g row col p"
  unfolding evaluate_position_def
  by (rule evaluate_position_loop_anchor[OF assms]) (simp add: directions_def)

text \<open>
  Claim C9. On a 15 x 15 board and for a step \<open>(dr, dc)\<close> other than \<open>(0, 0)\<close>, the run-length
  count returns a value of at least 1, and neither it nor the position value built from it
  depends on what the anchor cell \<open>(row, col)\<close> holds: writing any value \<open>v\<close> into the anchor
  leaves both results as they were, so the anchor counts as the player's stone whether it
  is empty, the player's or the opponent's.
\<close>

theorem count_consecutive_ignores_anchor:
  assumes "wf_grid g" and "(dr, dc) \<noteq> (0, 0)"
  shows "(\<exists>n. count_consecutive g row col dr dc p = Inr n \<and> 1 \<le> n) \<and>
         (\<forall>v g'. put g row col v = Inr g' \<longrightarrow>
            count_consecutive g' row col dr dc p = count_consecutive g row col dr dc p \<and>
            evaluate_position g' row col p = evaluate_position g row col p)"
proof -
  have nz: "dr \<noteq> 0 \<or> dc \<noteq> 0" using assms(2) by simp
  show ?thesis
    using count_consecutive_total[OF assms(1) nz] count_consecutive_anchor[OF _ nz]
      evaluate_position_anchor
    by blast
qed

theorem count_consecutive_ignores_anchor_witness:
  "wf_grid empty_board \<and> ((0::int), (1::int)) \<noteq> (0, 0) \<and>
   (\<exists>n. count_consecutive empty_board 7 7 0 1 1 = Inr n \<and> 1 \<le> n) \<and>
   put empty_board 7 7 2 = Inr centre_stone_board \<and>
   count_consecutive centre_stone_board 7 7 0 1 1 = count_consecutive empty_board 7 7 0 1 1 \<and>
   evaluate_position centre_stone_board 7 7 1 = evaluate_position empty_board 7 7 1"
proof -
  have w: "wf_grid empty_board"
    by (simp add: wf_grid_def empty_board_def board_size_def)
  have d: "((0::int), (1::int)) \<noteq> (0, 0)" by simp
  have p: "put empty_board 7 7 2 = Inr centre_stone_board"
    by (simp add: put_def empty_board_def centre_stone_board_def)
  show ?thesis
    using w d p count_consecutive_ignores_anchor[OF w d, of 7 7 1] by blast
qed

subsection \<open>Five in a row\<close>

lemma walk_Inr:
  "walk n g r c dr dc p cnt = Inr m \<Longrightarrow> cnt \<le> m \<and> (\<forall>k. ray g r c dr dc p k \<longleftrightarrow> int k \<le> m - cnt)"
proof (induction n arbitrary: r c cnt)
  case 0
  then show ?case by simp
next
  case (Suc n)
  have r0: "ray g r c dr dc p 0" by (simp add: ray_def)
  have rS: "ray g r c dr dc p (Suc k) \<longleftrightarrow>
            in_board r c \<and> cell g r c = Inr p \<and> ray g (r + dr) (c + dc) dr dc p k" for k
  proof -
    have "(\<forall>j < Suc k. in_board (r + int j * dr) (c + int j * dc) \<and> cell g (r + int j * dr) (c + int j * dc) = Inr p)
      \<longleftrightarrow> (in_board r c \<and> cell g r c = Inr p) \<and>
          (\<forall>j < k. in_board (r + int (Suc j) * dr) (c + int (Suc j) * dc) \<and> cell g (r + int (Suc j) * dr) (c + int (Suc j) * dc) = Inr p)"
      by (subst All_less_Suc2) simp
    then show ?thesis by (simp add: ray_def algebra_simps)
  qed
  show ?case
  proof (cases "in_board r c \<and> cell g r c = Inr p")
    case True
    then have "walk n g (r + dr) (c + dc) dr dc p (cnt + 1) = Inr m" using Suc.prems by simp
    from Suc.IH[OF this] have ih: "cnt + 1 \<le> m" "\<And>k. ray g (r + dr) (c + dc) dr dc p k \<longleftrightarrow> int k \<le> m - (cnt + 1)"
      by auto
    have "ray g r c dr dc p k \<longleftrightarrow> int k \<le> m - cnt" for k
      using ih True r0 rS by (cases k) auto
    then show ?thesis using ih(1) by simp
  next
    case False
    then have m: "m = cnt" using Suc.prems by (auto split: if_splits sum.splits)
    have "ray g r c dr dc p k \<longleftrightarrow> int k \<le> m - cnt" for k
      using False r0 rS m by (cases k) auto
    then show ?thesis using m by simp
  qed
qed


lemma window_split:
  fixes Q :: "int \<Rightarrow> bool"
  assumes "0 \<le> k" and "k \<le> 4"
  shows "(\<forall>t \<in> {0..4}. Q (t - k)) \<longleftrightarrow>
         Q 0 \<and> (\<forall>j::nat. int j < 4 - k \<longrightarrow> Q (int j + 1)) \<and> (\<forall>j::nat. int j < k \<longrightarrow> Q (- int j - 1))"
proof
  assume L: "\<forall>t \<in> {0..4}. Q (t - k)"
  have "Q 0" using L[rule_format, of k] assms by simp
  moreover have "Q (int j + 1)" if "int j < 4 - k" for j
    using L[rule_format, of "k + int j + 1"] assms that by simp
  moreover have "Q (- int j - 1)" if "int j < k" for j
    using L[rule_format, of "k - int j - 1"] assms that by simp
  ultimately show "Q 0 \<and> (\<forall>j::nat. int j < 4 - k \<longrightarrow> Q (int j + 1)) \<and> (\<forall>j::nat. int j < k \<longrightarrow> Q (- int j - 1))"
    by blast
next
  assume R: "Q 0 \<and> (\<forall>j::nat. int j < 4 - k \<longrightarrow> Q (int j + 1)) \<and> (\<forall>j::nat. int j < k \<longrightarrow> Q (- int j - 1))"
  show "\<forall>t \<in> {0..4}. Q (t - k)"
  proof
    fix t :: int assume t: "t \<in> {0..4}"
    consider "t = k" | "k < t" | "t < k" by linarith
    then show "Q (t - k)"
    proof cases
      case 1
      then show ?thesis using R by simp
    next
      case 2
      have "int (nat (t - k - 1)) < 4 - k" using 2 t by simp
      then have "Q (int (nat (t - k - 1)) + 1)" using R by blast
      then show ?thesis using 2 by simp
    next
      case 3
      have "int (nat (k - t - 1)) < k" using 3 t by simp
      then have "Q (- int (nat (k - t - 1)) - 1)" using R by blast
      then show ?thesis using 3 by simp
    qed
  qed
qed

lemma line_of_five_rays:
  assumes "0 \<le> k" and "k \<le> 4"
  shows "line_of_five g r c dr dc p k \<longleftrightarrow>
         (in_board r c \<and> cell g r c = Inr p) \<and>
         ray g (r + dr) (c + dc) dr dc p (nat (4 - k)) \<and>
         ray g (r - dr) (c - dc) (- dr) (- dc) p (nat k)"
proof -
  let ?Q = "\<lambda>off. in_board (r + off * dr) (c + off * dc) \<and> cell g (r + off * dr) (c + off * dc) = Inr p"
  have f: "ray g (r + dr) (c + dc) dr dc p (nat (4 - k)) \<longleftrightarrow> (\<forall>j::nat. int j < 4 - k \<longrightarrow> ?Q (int j + 1))"
    unfolding ray_def by (simp add: algebra_simps nat_less_iff zless_nat_eq_int_zless)
  have b: "ray g (r - dr) (c - dc) (- dr) (- dc) p (nat k) \<longleftrightarrow> (\<forall>j::nat. int j < k \<longrightarrow> ?Q (- int j - 1))"
    unfolding ray_def by (simp add: algebra_simps nat_less_iff zless_nat_eq_int_zless)
  have "line_of_five g r c dr dc p k \<longleftrightarrow> (\<forall>t \<in> {0..4}. ?Q (t - k))"
    by (simp add: line_of_five_def)
  also have "\<dots> \<longleftrightarrow> ?Q 0 \<and> (\<forall>j::nat. int j < 4 - k \<longrightarrow> ?Q (int j + 1)) \<and> (\<forall>j::nat. int j < k \<longrightarrow> ?Q (- int j - 1))"
    by (rule window_split[OF assms])
  finally show ?thesis using f b by simp
qed

lemma five_count_iff:
  assumes fwd: "walk n1 g (r + dr) (c + dc) dr dc p 1 = Inr m1"
    and bwd: "walk n2 g (r - dr) (c - dc) (- dr) (- dc) p m1 = Inr m2"
    and anchor: "in_board r c" "cell g r c = Inr p"
  shows "5 \<le> m2 \<longleftrightarrow> (\<exists>k \<in> {0..4}. line_of_five g r c dr dc p k)"
proof -
  from walk_Inr[OF fwd] have F: "1 \<le> m1" "\<And>k. ray g (r + dr) (c + dc) dr dc p k \<longleftrightarrow> int k \<le> m1 - 1"
    by auto
  from walk_Inr[OF bwd] have B: "m1 \<le> m2" "\<And>k. ray g (r - dr) (c - dc) (- dr) (- dc) p k \<longleftrightarrow> int k \<le> m2 - m1"
    by auto
  have line: "line_of_five g r c dr dc p k \<longleftrightarrow> 4 - k \<le> m1 - 1 \<and> k \<le> m2 - m1" if "0 \<le> k" "k \<le> 4" for k
    using line_of_five_rays[OF that] anchor F B that by simp
  show ?thesis
  proof
    assume five: "5 \<le> m2"
    define k where "k = min 4 (m2 - m1)"
    have k: "0 \<le> k" "k \<le> 4" using B(1) by (auto simp: k_def)
    have "4 - k \<le> m1 - 1 \<and> k \<le> m2 - m1" using five F(1) by (auto simp: k_def min_def)
    then have "line_of_five g r c dr dc p k" using line[OF k] by simp
    then show "\<exists>k \<in> {0..4}. line_of_five g r c dr dc p k" using k by auto
  next
    assume "\<exists>k \<in> {0..4}. line_of_five g r c dr dc p k"
    then obtain k where k: "0 \<le> k" "k \<le> 4" and l: "line_of_five g r c dr dc p k" by auto
    from l line[OF k] show "5 \<le> m2" by linarith
  qed
qed

lemma check_five_loop_wf:
  assumes "wf_grid g" and "in_board r c" and "cell g r c = Inr p"
    and "\<forall>(dr, dc) \<in> set ds. dr \<noteq> 0 \<or> dc \<noteq> 0"
  shows "check_five_loop g r c p ds =
         Inr (\<exists>(dr, dc) \<in> set ds. \<exists>k \<in> {0..4}. line_of_five g r c dr dc p k)"
  using assms(4)
proof (induction ds)
  case Nil
  then show ?case by simp
next
  case (Cons d ds)
  obtain dr dc where d: "d = (dr, dc)" by (cases d)
  have nz: "dr \<noteq> 0 \<or> dc \<noteq> 0" using Cons.prems d by simp
  obtain m1 where m1: "walk walk_fuel g (r + dr) (c + dc) dr dc p 1 = Inr m1"
    using walk_total[OF assms(1) nz] by blast
  have "- dr \<noteq> 0 \<or> - dc \<noteq> 0" using nz by simp
  then obtain m2 where m2: "walk walk_fuel g (r - dr) (c - dc) (- dr) (- dc) p m1 = Inr m2"
    using walk_total[OF assms(1)] by blast
  note iff = five_count_iff[OF m1 m2 assms(2,3)]
  have ih: "check_five_loop g r c p ds =
         Inr (\<exists>(dr, dc) \<in> set ds. \<exists>k \<in> {0..4}. line_of_five g r c dr dc p k)"
    using Cons by simp
  show ?case using m1 m2 iff ih by (auto simp: d)
qed

lemma check_five_in_row_wf:
  assumes "wf_grid g" and "in_board r c" and "cell g r c = Inr p"
  shows "check_five_in_row g r c p = Inr (five_through g r c p)"
  unfolding check_five_in_row_def five_through_def
  by (rule check_five_loop_wf[OF assms]) (simp add: directions_def)

subsection \<open>Move generation\<close>

lemma all_cells_iff: "(i, j) \<in> set all_cells \<longleftrightarrow> in_board i j"
  by (auto simp: all_cells_def in_board_def)

lemma filter_e_Inr:
  "(\<And>x. x \<in> set xs \<Longrightarrow> t x = Inr (P x)) \<Longrightarrow> filter_e t xs = Inr (filter P xs)"
  by (induction xs) auto

lemma any_e_Inr:
  "(\<And>x. x \<in> set xs \<Longrightarrow> t x = Inr (P x)) \<Longrightarrow> any_e t xs = Inr (\<exists>x \<in> set xs. P x)"
  by (induction xs) auto

lemma get_empty_positions_wf:
  assumes "wf_grid g"
  shows "get_empty_positions g = Inr (empties g)"
  unfolding get_empty_positions_def empties_def
proof (rule filter_e_Inr)
  fix x
  assume xin: "x \<in> set all_cells"
  obtain i j where x: "x = (i, j)" by (cases x)
  have b: "in_board i j" using xin x all_cells_iff by simp
  show "(case x of (i, j) \<Rightarrow> ebind (cell g i j) (\<lambda>v. Inr (v = 0))) = Inr (case x of (r, c) \<Rightarrow> cell g r c = Inr 0)"
    using cell_wf[OF assms b] by (simp add: x ebind_def)
qed

lemma has_neighbors_wf:
  assumes "wf_grid g"
  shows "has_neighbors g (row, col) = Inr (near_stone g (row, col))"
proof -
  let ?cs = "List.product [max 0 (row - 2)..min board_size (row + 3) - 1]
                        [max 0 (col - 2)..min board_size (col + 3) - 1]"
  let ?P = "\<lambda>(i, j). (i \<noteq> row \<or> j \<noteq> col) \<and> cell g i j \<noteq> Inr 0"
  have mem: "(i, j) \<in> set ?cs \<longleftrightarrow> in_board i j \<and> \<bar>i - row\<bar> \<le> 2 \<and> \<bar>j - col\<bar> \<le> 2" for i j
    by (auto simp: in_board_def board_size_def)
  have "any_e (\<lambda>(i, j). if i \<noteq> row \<or> j \<noteq> col
                         then ebind (cell g i j) (\<lambda>v. Inr (v \<noteq> 0))
                         else Inr False) ?cs = Inr (\<exists>x \<in> set ?cs. ?P x)"
  proof (rule any_e_Inr)
    fix x assume xin: "x \<in> set ?cs"
    obtain i j where x: "x = (i, j)" by (cases x)
    have b: "in_board i j" using xin mem x by blast
    show "(case x of (i, j) \<Rightarrow> if i \<noteq> row \<or> j \<noteq> col
                         then ebind (cell g i j) (\<lambda>v. Inr (v \<noteq> 0))
                         else Inr False) = Inr (?P x)"
      using cell_wf[OF assms b] by (simp add: x ebind_def)
  qed
  moreover have "(\<exists>x \<in> set ?cs. ?P x) \<longleftrightarrow> near_stone g (row, col)"
  proof -
    have "(\<exists>x \<in> set ?cs. ?P x) \<longleftrightarrow> (\<exists>i j. (i, j) \<in> set ?cs \<and> ?P (i, j))"
      by (simp only: Bex_def split_paired_Ex)
    also have "\<dots> \<longleftrightarrow> (\<exists>i j. (in_board i j \<and> \<bar>i - row\<bar> \<le> 2 \<and> \<bar>j - col\<bar> \<le> 2) \<and> ?P (i, j))"
      by (simp only: mem)
    also have "\<dots> \<longleftrightarrow> (\<exists>i j. (i, j) \<in> set all_cells \<and> (i, j) \<noteq> (row, col) \<and>
                  \<bar>i - fst (row, col)\<bar> \<le> 2 \<and> \<bar>j - snd (row, col)\<bar> \<le> 2 \<and> cell g i j \<noteq> Inr 0)"
      by (simp only: all_cells_iff) auto
    also have "\<dots> \<longleftrightarrow> near_stone g (row, col)"
      by (simp only: near_stone_def Bex_def split_paired_Ex prod.case)
    finally show ?thesis .
  qed
  ultimately show ?thesis by (simp add: has_neighbors_def)
qed

lemma get_candidate_moves_wf:
  assumes "wf_grid g"
  shows "get_candidate_moves g = Inr (three_stage g)"
proof -
  have "filter_e (has_neighbors g) (empties g) = Inr (filter (near_stone g) (empties g))"
    by (rule filter_e_Inr) (use has_neighbors_wf[OF assms] in auto)
  moreover have "(\<lambda>pos. \<bar>fst pos - board_size div 2\<bar> \<le> 2 \<and> \<bar>snd pos - board_size div 2\<bar> \<le> 2) = near_centre"
    by (auto simp: near_centre_def board_size_def fun_eq_iff)
  ultimately show ?thesis
    by (auto simp: get_candidate_moves_def get_empty_positions_wf[OF assms] ebind_def three_stage_def Let_def)
qed

lemma three_stage_subset: "set (three_stage g) \<subseteq> set (empties g)"
  by (auto simp: three_stage_def)

lemma three_stage_nonempty: "empties g \<noteq> [] \<Longrightarrow> three_stage g \<noteq> []"
  by (auto simp: three_stage_def)

lemma empties_iff: "(r, c) \<in> set (empties g) \<longleftrightarrow> in_board r c \<and> cell g r c = Inr 0"
  by (auto simp: empties_def all_cells_iff)

text \<open>
  Claim C7. On a 15 x 15 board with an empty cell, the move generator returns the list the
  three-stage rule describes, that list is not empty, and each of its cells is a cell of
  the board that is empty.
\<close>

theorem get_candidate_moves_three_stage:
  assumes "wf_grid g" and "in_board r c" and "cell g r c = Inr 0"
  shows "get_candidate_moves g = Inr (three_stage g) \<and> three_stage g \<noteq> [] \<and>
         set (three_stage g) \<subseteq> {(i, j). in_board i j \<and> cell g i j = Inr 0}"
proof -
  have "(r, c) \<in> set (empties g)" using assms(2,3) by (simp add: empties_iff)
  then have "empties g \<noteq> []" by auto
  then have "three_stage g \<noteq> []" by (rule three_stage_nonempty)
  moreover have "set (three_stage g) \<subseteq> {(i, j). in_board i j \<and> cell g i j = Inr 0}"
    using three_stage_subset[of g] by (auto simp: empties_iff)
  ultimately show ?thesis using get_candidate_moves_wf[OF assms(1)] by simp
qed

theorem get_candidate_moves_three_stage_witness:
  "wf_grid empty_board \<and> in_board 0 0 \<and> cell empty_board 0 0 = Inr 0 \<and>
   get_candidate_moves empty_board = Inr (three_stage empty_board) \<and>
   three_stage empty_board \<noteq> [] \<and>
   set (three_stage empty_board) \<subseteq> {(i, j). in_board i j \<and> cell empty_board i j = Inr 0}"
proof -
  have w: "wf_grid empty_board"
    by (simp add: wf_grid_def empty_board_def board_size_def)
  have b: "in_board 0 0" by (simp add: in_board_def board_size_def)
  have e: "cell empty_board 0 0 = Inr 0" by (simp add: cell_def empty_board_def)
  show ?thesis
    using w b e get_candidate_moves_three_stage[OF w b e] by blast
qed

subsection \<open>Threat detection\<close>

lemma winning_loop_wf:
  assumes "wf_grid g"
  shows "set cs \<subseteq> set all_cells \<Longrightarrow> winning_loop g p cs = Inr (find (completes_five g p) cs, g)"
proof (induction cs)
  case Nil
  then show ?case by simp
next
  case (Cons x cs)
  obtain i j where x: "x = (i, j)" by (cases x)
  have b: "in_board i j" using Cons.prems x by (simp add: all_cells_iff)
  have ih: "winning_loop g p cs = Inr (find (completes_five g p) cs, g)" using Cons by simp
  note c = cell_wf[OF assms b]
  show ?case
  proof (cases "g ! nat i ! nat j = 0")
    case False
    then have "\<not> completes_five g p (i, j)" using c by (simp add: completes_five_def)
    then show ?thesis using c False ih by (simp add: x)
  next
    case True
    obtain g1 where g1: "put g i j p = Inr g1" "wf_grid g1" using put_wf[OF assms b] by blast
    have c1: "cell g1 i j = Inr p" by (rule cell_put_same[OF g1(1)])
    have five: "check_five_in_row g1 i j p = Inr (five_through g1 i j p)"
      by (rule check_five_in_row_wf[OF g1(2) b c1])
    have undo: "put g1 i j 0 = Inr g" using put_undo[OF _ g1(1)] c True by simp
    have cf: "completes_five g p (i, j) \<longleftrightarrow> five_through g1 i j p"
      using c True g1(1) by (simp add: completes_five_def)
    show ?thesis using c True g1(1) five undo cf ih by (simp add: x)
  qed
qed

lemma find_winning_move_wf:
  "wf_grid g \<Longrightarrow> find_winning_move g p = Inr (first_winning g p, g)"
  by (simp add: find_winning_move_def first_winning_def winning_loop_wf)

lemma find_defensive_move_wf:
  "wf_grid g \<Longrightarrow> find_defensive_move g p = Inr (first_winning g (3 - p), g)"
  by (simp add: find_defensive_move_def first_winning_def winning_loop_wf)

lemma sorted_wrt_product:
  assumes "sorted_wrt (<) xs" and "sorted_wrt (<) ys"
  shows "sorted_wrt row_major_less (List.product (xs :: int list) (ys :: int list))"
  using assms(1)
proof (induction xs)
  case Nil
  then show ?case by simp
next
  case (Cons x xs)
  have "sorted_wrt row_major_less (map (Pair x) ys)"
    using assms(2) by (simp add: sorted_wrt_map row_major_less_def)
  moreover have "sorted_wrt row_major_less (List.product xs ys)" using Cons by simp
  moreover have "\<forall>a \<in> set (map (Pair x) ys). \<forall>b \<in> set (List.product xs ys). row_major_less a b"
    using Cons.prems by (auto simp: row_major_less_def)
  ultimately show ?case by (simp add: sorted_wrt_append)
qed

lemma all_cells_sorted: "sorted_wrt row_major_less all_cells"
  unfolding all_cells_def
  by (rule sorted_wrt_product) (simp_all add: strict_sorted_iff)

lemma find_first_sorted:
  assumes "sorted_wrt R xs" and "find P xs = Some x" and "y \<in> set xs" and "P y"
  shows "y = x \<or> R x y"
  using assms
proof (induction xs)
  case Nil
  then show ?case by simp
next
  case (Cons a xs)
  then show ?case by (auto split: if_splits)
qed

lemma cell_Inr_in_board:
  assumes "wf_grid g" and "cell g r c = Inr v"
  shows "in_board r c"
  using assms
  by (auto simp: cell_def wf_grid_def in_board_def split: if_splits)

lemma completes_five_in_cells:
  assumes "wf_grid g" and "completes_five g p pos"
  shows "pos \<in> set all_cells"
proof -
  have "cell g (fst pos) (snd pos) = Inr 0" using assms(2) by (simp add: completes_five_def)
  then have "in_board (fst pos) (snd pos)" by (rule cell_Inr_in_board[OF assms(1)])
  then show ?thesis using all_cells_iff[of "fst pos" "snd pos"] by simp
qed

lemma wf_four_board: "wf_grid four_board"
  by (auto simp: wf_grid_def four_board_def empty_board_def board_size_def
      dest!: set_update_subset_insert[THEN subsetD])

text \<open>
  Claim C3. On a 15 x 15 board \<^verbatim>\<open>_find_winning_move\<close> returns the board as it received it,
  together with the first cell in row-major order that completes five for the player:
  it returns no move exactly when no empty cell completes five, and a move it returns
  completes five and precedes every other such cell in row-major order.
\<close>

theorem find_winning_move_first:
  assumes "wf_grid g"
  shows "find_winning_move g p = Inr (first_winning g p, g) \<and>
         (first_winning g p = None \<longleftrightarrow> \<not> (\<exists>pos. completes_five g p pos)) \<and>
         (\<forall>m. first_winning g p = Some m \<longrightarrow>
            completes_five g p m \<and>
            (\<forall>m'. completes_five g p m' \<longrightarrow> m' = m \<or> row_major_less m m'))"
proof (intro conjI allI impI)
  show "find_winning_move g p = Inr (first_winning g p, g)"
    by (rule find_winning_move_wf[OF assms])
next
  show "first_winning g p = None \<longleftrightarrow> \<not> (\<exists>pos. completes_five g p pos)"
  proof
    assume "first_winning g p = None"
    then have "\<not> (\<exists>x. x \<in> set all_cells \<and> completes_five g p x)"
      unfolding first_winning_def find_None_iff .
    then have n: "\<And>x. x \<in> set all_cells \<Longrightarrow> \<not> completes_five g p x"
      by blast
    show "\<not> (\<exists>pos. completes_five g p pos)"
    proof
      assume "\<exists>pos. completes_five g p pos"
      then obtain pos where c: "completes_five g p pos" ..
      from n[OF completes_five_in_cells[OF assms c]] c show False ..
    qed
  next
    assume "\<not> (\<exists>pos. completes_five g p pos)"
    then have "\<not> (\<exists>x. x \<in> set all_cells \<and> completes_five g p x)"
      by blast
    then show "first_winning g p = None"
      unfolding first_winning_def find_None_iff .
  qed
next
  fix m assume m: "first_winning g p = Some m"
  then have f: "find (completes_five g p) all_cells = Some m" by (simp add: first_winning_def)
  then show "completes_five g p m" unfolding find_Some_iff by blast
  fix m' assume c: "completes_five g p m'"
  show "m' = m \<or> row_major_less m m'"
    by (rule find_first_sorted[OF all_cells_sorted f completes_five_in_cells[OF assms c] c])
qed

theorem find_winning_move_first_witness:
  "wf_grid four_board \<and>
   find_winning_move four_board 1 = Inr (Some (7, 6), four_board) \<and>
   first_winning four_board 1 = Some (7, 6) \<and>
   completes_five four_board 1 (7, 6)"
proof -
  have w: "wf_grid four_board" by (rule wf_four_board)
  have e: "find_winning_move four_board 1 = Inr (Some (7, 6), four_board)" by code_simp
  note t = find_winning_move_first[OF w, of 1]
  have f: "first_winning four_board 1 = Some (7, 6)"
    using t[THEN conjunct1] e by simp
  have "completes_five four_board 1 (7, 6)"
    using t[THEN conjunct2, THEN conjunct2, rule_format, OF f] by (rule conjunct1)
  with w e f show ?thesis by blast
qed

text \<open>
  Claim C2. On a 15 x 15 board the Expert tier returns the first cell that completes five
  for the side to move when there is one; otherwise the first cell that completes five for
  the opponent when there is one; otherwise whatever the fall-through search returns. In
  the first two cases the result is the same for every search function put in the place
  of \<^verbatim>\<open>_enhanced_minimax_move\<close>, also for one that fails: the search is not run. The board
  comes back unchanged from both scans.
\<close>

theorem expert_move_shortcuts:
  assumes "wf_grid g"
  shows "expert_move_with search g p =
           (case first_winning g p of
              Some m \<Rightarrow> Inr (m, g)
            | None \<Rightarrow> (case first_winning g (3 - p) of
                         Some m \<Rightarrow> Inr (m, g)
                       | None \<Rightarrow> search g p)) \<and>
         get_move EXPERT r fl g p = expert_move_with (enhanced_minimax_move fl) g p"
  by (simp add: expert_move_with_def get_move_def expert_move_def ebind_def
      find_winning_move_wf[OF assms] split: option.splits)

theorem expert_move_shortcuts_witness:
  "wf_grid four_board \<and>
   expert_move_with (\<lambda>b q. Inl Diverges) four_board 1 = Inr ((7, 6), four_board) \<and>
   expert_move_with (\<lambda>b q. Inl Diverges) four_board 2 = Inr ((7, 6), four_board)"
proof -
  have w: "wf_grid four_board" by (rule wf_four_board)
  have e1: "find_winning_move four_board 1 = Inr (Some (7, 6), four_board)" by code_simp
  have e2: "find_winning_move four_board 2 = Inr (None, four_board)" by code_simp
  have f1: "first_winning four_board 1 = Some (7, 6)"
    using find_winning_move_wf[OF w, of 1] e1 by simp
  have f2: "first_winning four_board 2 = None"
    using find_winning_move_wf[OF w, of 2] e2 by simp
  have f3: "first_winning four_board (3 - 2) = Some (7, 6)" using f1 by simp
  have a: "expert_move_with (\<lambda>b q. Inl Diverges) four_board 1 = Inr ((7, 6), four_board)"
    using expert_move_shortcuts[OF w, of "\<lambda>b q. Inl Diverges" 1, THEN conjunct1]
    by (simp only: f1 option.case)
  have b: "expert_move_with (\<lambda>b q. Inl Diverges) four_board 2 = Inr ((7, 6), four_board)"
    using expert_move_shortcuts[OF w, of "\<lambda>b q. Inl Diverges" 2, THEN conjunct1]
    by (simp only: f2 f3 option.case)
  from w a b show ?thesis by blast
qed

subsection \<open>The search returns, and returns the board it was given\<close>

lemma evaluate_direction_total:
  assumes "wf_grid g" and "dr \<noteq> 0 \<or> dc \<noteq> 0"
  shows "\<exists>s. evaluate_direction g row col dr dc p = Inr s"
  using count_consecutive_total[OF assms, of row col p]
  by (auto simp: evaluate_direction_def ebind_def)

lemma evaluate_position_loop_total:
  assumes "wf_grid g"
  shows "\<forall>(dr, dc) \<in> set ds. dr \<noteq> 0 \<or> dc \<noteq> 0 \<Longrightarrow>
         \<exists>s. evaluate_position_loop g row col p ds acc = Inr s"
proof (induction ds arbitrary: acc)
  case Nil
  then show ?case by simp
next
  case (Cons d ds)
  obtain dr dc where d: "d = (dr, dc)" by (cases d)
  have "dr \<noteq> 0 \<or> dc \<noteq> 0" using Cons.prems d by simp
  then obtain s where s: "evaluate_direction g row col dr dc p = Inr s"
    using evaluate_direction_total[OF assms] by blast
  have "\<exists>t. evaluate_position_loop g row col p ds (acc + s) = Inr t"
    using Cons by simp
  then show ?case using s by (simp add: d)
qed

lemma evaluate_position_total:
  assumes "wf_grid g"
  shows "\<exists>s. evaluate_position g row col p = Inr s"
  unfolding evaluate_position_def
  by (rule evaluate_position_loop_total[OF assms]) (simp add: directions_def)

lemma evaluate_board_loop_total:
  assumes "wf_grid g"
  shows "set cs \<subseteq> set all_cells \<Longrightarrow> \<exists>s. evaluate_board_loop g p cs acc = Inr s"
proof (induction cs arbitrary: acc)
  case Nil
  then show ?case by simp
next
  case (Cons x cs)
  obtain i j where x: "x = (i, j)" by (cases x)
  have b: "in_board i j" using Cons.prems x by (simp add: all_cells_iff)
  note c = cell_wf[OF assms b]
  obtain s1 where s1: "evaluate_position g i j p = Inr s1"
    using evaluate_position_total[OF assms] by blast
  obtain s2 where s2: "evaluate_position g i j (3 - p) = Inr s2"
    using evaluate_position_total[OF assms] by blast
  have ih: "\<exists>s. evaluate_board_loop g p cs a = Inr s" for a using Cons by simp
  show ?case using c s1 s2 ih by (simp add: x)
qed

lemma evaluate_board_total:
  assumes "wf_grid g"
  shows "\<exists>s. evaluate_board g p = Inr s"
  unfolding evaluate_board_def
  by (rule evaluate_board_loop_total[OF assms]) simp

lemma is_game_over_total:
  assumes "wf_grid g"
  shows "\<exists>b. is_game_over g = Inr b"
proof -
  let ?P = "\<lambda>(i, j). g ! nat i ! nat j \<noteq> 0 \<and> five_through g i j (g ! nat i ! nat j)"
  have "is_game_over g = Inr (\<exists>x \<in> set all_cells. ?P x)"
    unfolding is_game_over_def
  proof (rule any_e_Inr)
    fix x assume xin: "x \<in> set all_cells"
    obtain i j where x: "x = (i, j)" by (cases x)
    have b: "in_board i j" using xin x all_cells_iff by simp
    note c = cell_wf[OF assms b]
    show "(case x of (i, j) \<Rightarrow> ebind (cell g i j) (\<lambda>v. if v \<noteq> 0 then check_five_in_row g i j v else Inr False))
          = Inr (?P x)"
      using c check_five_in_row_wf[OF assms b c] by (simp add: x ebind_def)
  qed
  then show ?thesis by blast
qed

lemma place_undo:
  assumes "wf_grid g" and "(row, col) \<in> set (empties g)"
  shows "\<exists>b1. put g row col v = Inr b1 \<and> wf_grid b1 \<and> put b1 row col 0 = Inr g"
proof -
  have b: "in_board row col" and c: "cell g row col = Inr 0"
    using assms(2) by (simp_all add: empties_iff)
  obtain b1 where b1: "put g row col v = Inr b1" "wf_grid b1" using put_wf[OF assms(1) b] by blast
  have "put b1 row col 0 = Inr g" by (rule put_undo[OF c b1(1)])
  with b1 show ?thesis by blast
qed

lemma candidates_empties:
  assumes "wf_grid g"
  shows "\<exists>ms. get_candidate_moves g = Inr ms \<and> set ms \<subseteq> set (empties g)"
  using get_candidate_moves_wf[OF assms] three_stage_subset[of g] by simp

lemma minimax_frame:
  shows "wf_grid g \<Longrightarrow> \<exists>s. minimax d mx p a b g = Inr (s, g)"
    and "wf_grid g \<Longrightarrow> set ms \<subseteq> set (empties g) \<Longrightarrow> \<exists>s. max_loop d p ms m a b g = Inr (s, g)"
    and "wf_grid g \<Longrightarrow> set ms \<subseteq> set (empties g) \<Longrightarrow> \<exists>s. min_loop d p ms m a b g = Inr (s, g)"
proof (induction d mx p a b g and d p ms m a b g and d p ms m a b g
    rule: minimax_max_loop_min_loop.induct)
  case (1 mx p a b g)
  then show ?case using evaluate_board_total[of g p] by auto
next
  case (2 d mx p a b g)
  obtain over where over: "is_game_over g = Inr over" using is_game_over_total[OF "2.prems"] by blast
  obtain s where s: "evaluate_board g p = Inr s" using evaluate_board_total[OF "2.prems"] by blast
  obtain ms where ms: "get_candidate_moves g = Inr ms" "set ms \<subseteq> set (empties g)"
    using candidates_empties[OF "2.prems"] by blast
  show ?case
  proof (cases over)
    case True
    then show ?thesis using over s by simp
  next
    case False
    show ?thesis
    proof (cases mx)
      case True
      from "2.IH"(1)[OF over False ms(1) True "2.prems" ms(2)] show ?thesis
        using over False ms(1) True by simp
    next
      case mn: False
      from "2.IH"(2)[OF over False ms(1) mn "2.prems" ms(2)] show ?thesis
        using over False ms(1) mn by simp
    qed
  qed
next
  case (3 d p m a b g)
  then show ?case by simp
next
  case (4 d p row col ms m a b g)
  have mem: "(row, col) \<in> set (empties g)" and rest: "set ms \<subseteq> set (empties g)"
    using "4.prems"(2) by auto
  obtain b1 where b1: "put g row col p = Inr b1" "wf_grid b1" "put b1 row col 0 = Inr g"
    using place_undo[OF "4.prems"(1) mem] by blast
  obtain e where e: "minimax d False p a b b1 = Inr (e, b1)"
    using "4.IH"(1)[OF b1(1) b1(2)] by blast
  show ?case
  proof (cases "b \<le> max a e")
    case True
    then show ?thesis using b1 e by simp
  next
    case False
    from "4.IH"(2)[OF b1(1) e refl b1(3) False "4.prems"(1) rest] show ?thesis
      using b1 e False by simp
  qed
next
  case (5 d p m a b g)
  then show ?case by simp
next
  case (6 d p row col ms m a b g)
  have mem: "(row, col) \<in> set (empties g)" and rest: "set ms \<subseteq> set (empties g)"
    using "6.prems"(2) by auto
  obtain b1 where b1: "put g row col (3 - p) = Inr b1" "wf_grid b1" "put b1 row col 0 = Inr g"
    using place_undo[OF "6.prems"(1) mem] by blast
  obtain e where e: "minimax d True p a b b1 = Inr (e, b1)"
    using "6.IH"(1)[OF b1(1) b1(2)] by blast
  show ?case
  proof (cases "min b e \<le> a")
    case True
    then show ?thesis using b1 e by simp
  next
    case False
    from "6.IH"(2)[OF b1(1) e refl b1(3) False "6.prems"(1) rest] show ?thesis
      using b1 e False by simp
  qed
qed

subsection \<open>What the tiers return\<close>

lemma root_loop_frame:
  assumes "wf_grid g"
  shows "set ms \<subseteq> set (empties g) \<Longrightarrow>
         \<exists>bm'. root_loop depth p ms bs bm g = Inr (bm', g) \<and> (bm' = bm \<or> bm' \<in> Some ` set ms)"
proof (induction ms arbitrary: bs bm)
  case Nil
  then show ?case by simp
next
  case (Cons x ms)
  obtain row col where x: "x = (row, col)" by (cases x)
  have mem: "(row, col) \<in> set (empties g)" and rest: "set ms \<subseteq> set (empties g)"
    using Cons.prems x by auto
  obtain b1 where b1: "put g row col p = Inr b1" "wf_grid b1" "put b1 row col 0 = Inr g"
    using place_undo[OF assms mem] by blast
  obtain s where s: "minimax depth False p NInf PInf b1 = Inr (s, b1)"
    using minimax_frame(1)[OF b1(2)] by blast
  have ih: "\<exists>bm'. root_loop depth p ms bs' bm0 g = Inr (bm', g) \<and> (bm' = bm0 \<or> bm' \<in> Some ` set ms)"
    for bs' bm0 using Cons.IH[OF rest] by blast
  show ?case
  proof (cases "bs < s")
    case True
    from ih[of s "Some (row, col)"] show ?thesis using b1 s True by (auto simp: x)
  next
    case False
    from ih[of bs bm] show ?thesis using b1 s False by (auto simp: x)
  qed
qed

lemma enhanced_loop_frame:
  assumes "wf_grid g"
  shows "set ms \<subseteq> set (empties g) \<Longrightarrow>
         \<exists>bm'. enhanced_loop fl p ms bs bm g = Inr (bm', g) \<and> (bm' = bm \<or> bm' \<in> Some ` set ms)"
proof (induction ms arbitrary: bs bm)
  case Nil
  then show ?case by simp
next
  case (Cons x ms)
  obtain row col where x: "x = (row, col)" by (cases x)
  have mem: "(row, col) \<in> set (empties g)" and rest: "set ms \<subseteq> set (empties g)"
    using Cons.prems x by auto
  obtain b1 where b1: "put g row col p = Inr b1" "wf_grid b1" "put b1 row col 0 = Inr g"
    using place_undo[OF assms mem] by blast
  obtain s where s: "minimax 6 False p NInf PInf b1 = Inr (s, b1)"
    using minimax_frame(1)[OF b1(2)] by blast
  have ih: "\<exists>bm'. enhanced_loop fl p ms bs' bm0 g = Inr (bm', g) \<and> (bm' = bm0 \<or> bm' \<in> Some ` set ms)"
    for bs' bm0 using Cons.IH[OF rest] by blast
  show ?case
  proof (cases "bs < add_weight fl s (position_weight fl row col)")
    case True
    from ih[of "add_weight fl s (position_weight fl row col)" "Some (row, col)"] show ?thesis
      using b1 s True by (auto simp: x)
  next
    case False
    from ih[of bs bm] show ?thesis using b1 s False by (auto simp: x)
  qed
qed

lemma best_or_first_outcome:
  assumes "bm = None \<or> bm \<in> Some ` set ms"
  shows "best_or_first bm ms g =
         (if ms = [] then Inl (IndexError Candidates)
          else Inr (case bm of Some m \<Rightarrow> m | None \<Rightarrow> hd ms, g)) \<and>
         (ms \<noteq> [] \<longrightarrow> (case bm of Some m \<Rightarrow> m | None \<Rightarrow> hd ms) \<in> set ms)"
  using assms
  by (cases ms; cases bm) (auto simp: best_or_first_def first_candidate_def ebind_def)

lemma root_move_outcome:
  assumes "wf_grid g"
  shows "move_outcome Candidates g
           (ebind (get_candidate_moves g) (\<lambda>candidate_moves.
            ebind (root_loop depth p candidate_moves NInf None g) (\<lambda>(best_move, board').
              best_or_first best_move candidate_moves board')))"
proof -
  note cm = get_candidate_moves_wf[OF assms]
  have sub: "set (three_stage g) \<subseteq> set (empties g)" by (rule three_stage_subset)
  obtain bm where bm: "root_loop depth p (three_stage g) NInf None g = Inr (bm, g)"
    "bm = None \<or> bm \<in> Some ` set (three_stage g)"
    using root_loop_frame[OF assms sub] by blast
  note bf = best_or_first_outcome[OF bm(2), of g]
  show ?thesis
  proof (cases "empties g = []")
    case True
    then have "three_stage g = []" using sub by auto
    then show ?thesis using cm bm(1) bf True by (simp add: move_outcome_def ebind_def)
  next
    case False
    then have ne: "three_stage g \<noteq> []" by (rule three_stage_nonempty)
    then show ?thesis using cm bm(1) bf False sub by (auto simp: move_outcome_def ebind_def)
  qed
qed

lemma intermediate_move_outcome:
  "wf_grid g \<Longrightarrow> move_outcome Candidates g (intermediate_move g p)"
  unfolding intermediate_move_def by (rule root_move_outcome)

lemma advance_move_outcome:
  "wf_grid g \<Longrightarrow> move_outcome Candidates g (advance_move g p)"
  unfolding advance_move_def by (rule root_move_outcome)

lemma threat_loop_total:
  assumes "wf_grid g"
  shows "\<forall>(dr, dc) \<in> set ds. dr \<noteq> 0 \<or> dc \<noteq> 0 \<Longrightarrow>
         \<exists>s. threat_loop g row col p ds acc = Inr s"
proof (induction ds arbitrary: acc)
  case Nil
  then show ?case by simp
next
  case (Cons d ds)
  obtain dr dc where d: "d = (dr, dc)" by (cases d)
  have "dr \<noteq> 0 \<or> dc \<noteq> 0" using Cons.prems d by simp
  then obtain n where n: "count_consecutive g row col dr dc p = Inr n"
    using count_consecutive_total[OF assms] by blast
  have "\<exists>t. threat_loop g row col p ds a = Inr t" for a
    using Cons by simp
  then show ?case using n by (simp add: d)
qed

lemma evaluate_move_threat_frame:
  assumes "wf_grid g" and "mv \<in> set (empties g)"
  shows "\<exists>s. evaluate_move_threat g mv p = Inr (s, g)"
proof -
  obtain row col where mv: "mv = (row, col)" by (cases mv)
  obtain b1 where b1: "put g row col p = Inr b1" "wf_grid b1" "put b1 row col 0 = Inr g"
    using place_undo[OF assms(1)] assms(2) mv by blast
  have "\<forall>(dr, dc) \<in> set directions. dr \<noteq> 0 \<or> dc \<noteq> 0" by (simp add: directions_def)
  from threat_loop_total[OF b1(2) this]
  obtain s where "threat_loop b1 row col p directions 0 = Inr s" by blast
  then show ?thesis using b1 by (simp add: evaluate_move_threat_def mv ebind_def)
qed

lemma scored_loop_frame:
  assumes "wf_grid g"
  shows "set ms \<subseteq> set (empties g) \<Longrightarrow>
         \<exists>sc. scored_loop g p ms = Inr (sc, g) \<and> map snd sc = ms"
proof (induction ms)
  case Nil
  then show ?case by simp
next
  case (Cons mv ms)
  have "mv \<in> set (empties g)" using Cons.prems by simp
  from evaluate_move_threat_frame[OF assms this]
  obtain s where s: "evaluate_move_threat g mv p = Inr (s, g)" by blast
  obtain sc where sc: "scored_loop g p ms = Inr (sc, g)" "map snd sc = ms"
    using Cons by auto
  show ?case using s sc by simp
qed

lemma get_priority_moves_frame:
  assumes "wf_grid g"
  shows "\<exists>pm. get_priority_moves g p = Inr (pm, g) \<and> set pm \<subseteq> set (empties g) \<and>
              (empties g \<noteq> [] \<longrightarrow> pm \<noteq> [])"
proof -
  note cm = get_candidate_moves_wf[OF assms]
  have sub: "set (three_stage g) \<subseteq> set (empties g)" by (rule three_stage_subset)
  obtain sc where sc: "scored_loop g p (three_stage g) = Inr (sc, g)" "map snd sc = three_stage g"
    using scored_loop_frame[OF assms sub] by blast
  let ?pm = "map snd (take 10 (sort_key (\<lambda>x. - fst x) sc))"
  have pm: "get_priority_moves g p = Inr (?pm, g)"
    using cm sc(1) by (simp add: get_priority_moves_def ebind_def)
  have "set ?pm \<subseteq> snd ` set (sort_key (\<lambda>x. - fst x) sc)"
    using set_take_subset[of 10 "sort_key (\<lambda>x. - fst x) sc"] by auto
  also have "\<dots> = set (map snd sc)" by simp
  finally have s1: "set ?pm \<subseteq> set (empties g)" using sc(2) sub by simp
  have "?pm \<noteq> []" if "empties g \<noteq> []"
  proof -
    have "three_stage g \<noteq> []" using that by (rule three_stage_nonempty)
    then have "sc \<noteq> []" using sc(2) by auto
    then have "length (sort_key (\<lambda>x. - fst x) sc) \<noteq> 0" by simp
    then have "sort_key (\<lambda>x. - fst x) sc \<noteq> []" by (simp del: length_sort)
    then show ?thesis by simp
  qed
  with pm s1 show ?thesis by blast
qed

lemma enhanced_minimax_move_outcome:
  assumes "wf_grid g"
  shows "move_outcome Candidates g (enhanced_minimax_move fl g p)"
proof -
  obtain pm where pm: "get_priority_moves g p = Inr (pm, g)" "set pm \<subseteq> set (empties g)"
    "empties g \<noteq> [] \<longrightarrow> pm \<noteq> []"
    using get_priority_moves_frame[OF assms] by blast
  obtain bm where bm: "enhanced_loop fl p pm NInf None g = Inr (bm, g)"
    "bm = None \<or> bm \<in> Some ` set pm"
    using enhanced_loop_frame[OF assms pm(2)] by blast
  note bf = best_or_first_outcome[OF bm(2), of g]
  show ?thesis
  proof (cases "empties g = []")
    case True
    then have "pm = []" using pm(2) by auto
    then show ?thesis using pm(1) bm(1) bf True
      by (simp add: move_outcome_def enhanced_minimax_move_def ebind_def)
  next
    case False
    then have "pm \<noteq> []" using pm(3) by simp
    then show ?thesis using pm(1,2) bm(1) bf False
      by (auto simp: move_outcome_def enhanced_minimax_move_def ebind_def)
  qed
qed

lemma first_winning_empties:
  assumes "wf_grid g" and "first_winning g p = Some m"
  shows "m \<in> set (empties g)"
proof -
  have "find (completes_five g p) all_cells = Some m" using assms(2) by (simp add: first_winning_def)
  then have c: "completes_five g p m" and i: "m \<in> set all_cells"
    unfolding find_Some_iff by (auto simp: nth_mem)
  from c have z: "cell g (fst m) (snd m) = Inr 0" by (simp add: completes_five_def)
  obtain r c where m: "m = (r, c)" by (cases m)
  show ?thesis using i z by (simp add: m empties_def)
qed

lemma expert_move_outcome:
  assumes "wf_grid g"
  shows "move_outcome Candidates g (expert_move fl g p)"
proof -
  note fw = find_winning_move_wf[OF assms]
  show ?thesis
  proof (cases "first_winning g p")
    case (Some m)
    then have "m \<in> set (empties g)" by (rule first_winning_empties[OF assms])
    then show ?thesis using fw Some
      by (auto simp: move_outcome_def expert_move_def expert_move_with_def ebind_def)
  next
    case None
    show ?thesis
    proof (cases "first_winning g (3 - p)")
      case (Some m)
      then have "m \<in> set (empties g)" by (rule first_winning_empties[OF assms])
      then show ?thesis using fw None Some
        by (auto simp: move_outcome_def expert_move_def expert_move_with_def ebind_def)
    next
      case n2: None
      have "expert_move fl g p = enhanced_minimax_move fl g p"
        using fw None n2 by (simp add: expert_move_def expert_move_with_def ebind_def)
      then show ?thesis using enhanced_minimax_move_outcome[OF assms] by simp
    qed
  qed
qed

lemma random_choice_outcome:
  "random_choice k xs = (if xs = [] then Inl (IndexError Choice) else Inr (xs ! (k mod length xs))) \<and>
   (xs \<noteq> [] \<longrightarrow> xs ! (k mod length xs) \<in> set xs)"
  by (simp add: random_choice_def)

lemma beginner_move_outcome:
  assumes "wf_grid g"
  shows "move_outcome Choice g (beginner_move r g p)"
proof -
  note ep = get_empty_positions_wf[OF assms]
  note fd = find_defensive_move_wf[OF assms, of p]
  note rc = random_choice_outcome[of "pick r" "empties g"]
  show ?thesis
  proof (cases "defend r")
    case False
    then show ?thesis using ep rc
      by (auto simp: move_outcome_def beginner_move_def ebind_def)
  next
    case True
    show ?thesis
    proof (cases "first_winning g (3 - p)")
      case None
      then show ?thesis using ep rc fd True
        by (auto simp: move_outcome_def beginner_move_def ebind_def)
    next
      case (Some m)
      then have "m \<in> set (empties g)" by (rule first_winning_empties[OF assms])
      then show ?thesis using ep fd True Some
        by (auto simp: move_outcome_def beginner_move_def ebind_def)
    qed
  qed
qed

lemma get_move_outcome:
  assumes "wf_grid g"
  shows "move_outcome (if t = BEGINNER then Choice else Candidates) g (get_move t r fl g p)"
  using beginner_move_outcome[OF assms] intermediate_move_outcome[OF assms]
    advance_move_outcome[OF assms] expert_move_outcome[OF assms]
  by (cases t) (simp_all add: get_move_def)

subsection \<open>The claims about \<open>get_move\<close>\<close>

lemma empties_nonempty:
  assumes "in_board r c" and "cell g r c = Inr 0"
  shows "empties g \<noteq> []"
proof -
  have "(r, c) \<in> set (empties g)" using assms by (simp add: empties_iff)
  then show ?thesis by auto
qed

lemma get_move_nonexhausted:
  assumes "wf_grid g" and "in_board r c" and "cell g r c = Inr 0"
  shows "\<exists>m \<in> set (empties g). get_move t rn fl g p = Inr (m, g)"
  using get_move_outcome[OF assms(1), of t rn fl p] empties_nonempty[OF assms(2,3)]
  by (simp add: move_outcome_def)

lemma wf_draw_board: "wf_grid draw_board"
  by (simp add: wf_grid_def draw_board_def board_size_def)

lemma empties_draw_board: "empties draw_board = []"
  by code_simp

text \<open>
  Claim C5. On a 15 x 15 board with an empty cell, every tier returns, for every player and
  every outcome of the random draws, the coordinates of a cell of the board that is empty
  in the board it was given (and returns that board unchanged).
\<close>

theorem get_move_returns_empty_cell:
  assumes "wf_grid g" and "in_board r c" and "cell g r c = Inr 0"
  shows "\<exists>m. get_move t rn fl g p = Inr (m, g) \<and>
             in_board (fst m) (snd m) \<and> cell g (fst m) (snd m) = Inr 0"
proof -
  obtain m where m: "m \<in> set (empties g)" "get_move t rn fl g p = Inr (m, g)"
    using get_move_nonexhausted[OF assms] by blast
  have "in_board (fst m) (snd m) \<and> cell g (fst m) (snd m) = Inr 0"
    using m(1) empties_iff[of "fst m" "snd m" g] by simp
  with m(2) show ?thesis by blast
qed

theorem get_move_returns_empty_cell_witness:
  "wf_grid four_board \<and> in_board 0 0 \<and> cell four_board 0 0 = Inr 0 \<and>
   (\<exists>m. get_move ADVANCE rng0 floats0 four_board 2 = Inr (m, four_board) \<and>
        in_board (fst m) (snd m) \<and> cell four_board (fst m) (snd m) = Inr 0)"
proof -
  have w: "wf_grid four_board" by (rule wf_four_board)
  have b: "in_board 0 0" by (simp add: in_board_def board_size_def)
  have e: "cell four_board 0 0 = Inr 0" by (simp add: cell_def four_board_def empty_board_def)
  show ?thesis
    using w b e get_move_returns_empty_cell[OF w b e, of ADVANCE rng0 floats0 2] by blast
qed

text \<open>
  Claim C1. On a 15 x 15 board the recursive search returns, for every depth, maximizing
  flag, root player and bounds \<open>alpha\<close>, \<open>beta\<close> (also on the paths cut by
  \<^verbatim>\<open>beta <= alpha\<close>), and the board it returns is the board it was given: every stone
  placed during the call has been taken back. The same holds for the threat evaluation of
  an empty cell, and for a whole \<open>get_move\<close> call on a board with an empty cell.
\<close>

theorem minimax_restores_grid:
  assumes "wf_grid g"
  shows "(\<exists>s. minimax d mx p alpha beta g = Inr (s, g)) \<and>
         (\<forall>r c. in_board r c \<and> cell g r c = Inr 0 \<longrightarrow>
            (\<exists>s. evaluate_move_threat g (r, c) q = Inr (s, g)) \<and>
            (\<exists>m. get_move t rn fl g q = Inr (m, g)))"
proof (intro conjI allI impI)
  show "\<exists>s. minimax d mx p alpha beta g = Inr (s, g)"
    by (rule minimax_frame(1)[OF assms])
next
  fix r c assume e: "in_board r c \<and> cell g r c = Inr 0"
  then have "(r, c) \<in> set (empties g)" by (simp add: empties_iff)
  then show "\<exists>s. evaluate_move_threat g (r, c) q = Inr (s, g)"
    by (rule evaluate_move_threat_frame[OF assms])
  show "\<exists>m. get_move t rn fl g q = Inr (m, g)"
    using get_move_nonexhausted[OF assms, of r c t rn fl q] e by blast
qed

theorem minimax_restores_grid_witness:
  "wf_grid four_board \<and>
   (\<exists>s. minimax 3 True 1 (Fin 5) (Fin 2) four_board = Inr (s, four_board)) \<and>
   in_board 0 0 \<and> cell four_board 0 0 = Inr 0 \<and>
   (\<exists>s. evaluate_move_threat four_board (0, 0) 2 = Inr (s, four_board)) \<and>
   (\<exists>m. get_move EXPERT rng0 floats0 four_board 2 = Inr (m, four_board))"
proof -
  have w: "wf_grid four_board" by (rule wf_four_board)
  have b: "in_board 0 0" by (simp add: in_board_def board_size_def)
  have e: "cell four_board 0 0 = Inr 0" by (simp add: cell_def four_board_def empty_board_def)
  show ?thesis
    using w b e minimax_restores_grid[OF w, of 3 True 1 "Fin 5" "Fin 2" 2 EXPERT rng0 floats0]
    by blast
qed

text \<open>
  Claim C8. For the tiers other than Beginner the result of \<open>get_move\<close> does not depend on
  the random draws: two calls with the same board, player and tier return the same
  result, and since a call that returns leaves the board as it was, so does a second call
  made after the first on the board the first one left.
\<close>

theorem get_move_deterministic:
  assumes "t \<noteq> BEGINNER" and "wf_grid g"
  shows "get_move t r1 fl g p = get_move t r2 fl g p \<and>
         (\<forall>m g'. get_move t r1 fl g p = Inr (m, g') \<longrightarrow> get_move t r2 fl g' p = Inr (m, g'))"
proof -
  have eq: "get_move t r1 fl b p = get_move t r2 fl b p" for b
    using assms(1) by (cases t) (simp_all add: get_move_def)
  have "get_move t r2 fl g' p = Inr (m, g')" if h: "get_move t r1 fl g p = Inr (m, g')" for m g'
  proof -
    have "g' = g"
      using get_move_outcome[OF assms(2), of t r1 fl p] h
      by (auto simp: move_outcome_def split: if_splits)
    then show ?thesis using h eq by simp
  qed
  with eq show ?thesis by blast
qed

theorem get_move_deterministic_witness:
  "ADVANCE \<noteq> BEGINNER \<and> wf_grid four_board \<and>
   get_move ADVANCE rng0 floats0 four_board 2 = get_move ADVANCE rng1 floats0 four_board 2 \<and>
   (\<exists>m. get_move ADVANCE rng0 floats0 four_board 2 = Inr (m, four_board) \<and>
        get_move ADVANCE rng1 floats0 four_board 2 = Inr (m, four_board))"
proof -
  have w: "wf_grid four_board" by (rule wf_four_board)
  have t: "ADVANCE \<noteq> BEGINNER" by simp
  have b: "in_board 0 0" by (simp add: in_board_def board_size_def)
  have e: "cell four_board 0 0 = Inr 0" by (simp add: cell_def four_board_def empty_board_def)
  obtain m where m: "get_move ADVANCE rng0 floats0 four_board 2 = Inr (m, four_board)"
    using get_move_nonexhausted[OF w b e] by blast
  note d = get_move_deterministic[OF t w, of rng0 floats0 2 rng1]
  have d1: "get_move ADVANCE rng0 floats0 four_board 2 = get_move ADVANCE rng1 floats0 four_board 2"
    by (rule d[THEN conjunct1])
  have m2: "get_move ADVANCE rng1 floats0 four_board 2 = Inr (m, four_board)"
    by (rule trans[OF d1[symmetric] m])
  have "\<exists>m. get_move ADVANCE rng0 floats0 four_board 2 = Inr (m, four_board) \<and>
        get_move ADVANCE rng1 floats0 four_board 2 = Inr (m, four_board)"
    using m m2 by (intro exI conjI)
  with t w d1 show ?thesis by (intro conjI)
qed

lemma check_five_loop_total:
  assumes "wf_grid g"
  shows "\<forall>(dr, dc) \<in> set ds. dr \<noteq> 0 \<or> dc \<noteq> 0 \<Longrightarrow> \<exists>b. check_five_loop g row col p ds = Inr b"
proof (induction ds)
  case Nil
  then show ?case by auto
next
  case (Cons d ds)
  obtain dr dc where d: "d = (dr, dc)" by (cases d)
  have nz: "dr \<noteq> 0 \<or> dc \<noteq> 0" using Cons.prems d by simp
  obtain m1 where m1: "walk walk_fuel g (row + dr) (col + dc) dr dc p 1 = Inr m1"
    using walk_total[OF assms nz] by blast
  have "- dr \<noteq> 0 \<or> - dc \<noteq> 0" using nz by simp
  then obtain m2 where m2: "walk walk_fuel g (row - dr) (col - dc) (- dr) (- dc) p m1 = Inr m2"
    using walk_total[OF assms] by blast
  have "\<exists>b. check_five_loop g row col p ds = Inr b" using Cons by simp
  then show ?case using m1 m2 by (auto simp: d)
qed

lemma check_five_in_row_total:
  assumes "wf_grid g"
  shows "\<exists>b. check_five_in_row g row col p = Inr b"
  unfolding check_five_in_row_def
  by (rule check_five_loop_total[OF assms]) (simp add: directions_def)

text \<open>
  Claim C10. On a 15 x 15 board no read or write of the board is out of range: the
  run-length count along each of the four directions, the five-in-a-row test and the
  neighbour test return a value for every anchor cell (also one off the board), and
  \<open>get_move\<close> either returns a move or raises the \<^verbatim>\<open>IndexError\<close> of the empty candidate
  list or of \<^verbatim>\<open>random.choice\<close>; it never fails on a board index and never runs out of
  loop fuel.
\<close>

theorem board_accesses_in_range:
  assumes "wf_grid g" and "(dr, dc) \<in> set directions"
  shows "(\<exists>n. count_consecutive g row col dr dc q = Inr n) \<and>
         (\<exists>b. check_five_in_row g row col q = Inr b) \<and>
         (\<exists>b. has_neighbors g pos = Inr b) \<and>
         ((\<exists>m. get_move t rn fl g p = Inr (m, g)) \<or>
          get_move t rn fl g p = Inl (IndexError Candidates) \<or>
          get_move t rn fl g p = Inl (IndexError Choice)) \<and>
         get_move t rn fl g p \<noteq> Inl (IndexError Board)"
proof -
  have nz: "dr \<noteq> 0 \<or> dc \<noteq> 0" using assms(2) by (auto simp: directions_def)
  have a: "\<exists>n. count_consecutive g row col dr dc q = Inr n"
    using count_consecutive_total[OF assms(1) nz] by blast
  have b: "\<exists>b. check_five_in_row g row col q = Inr b"
    by (rule check_five_in_row_total[OF assms(1)])
  have c: "\<exists>b. has_neighbors g pos = Inr b"
    using has_neighbors_wf[OF assms(1), of "fst pos" "snd pos"] by simp
  have d: "(\<exists>m. get_move t rn fl g p = Inr (m, g)) \<or>
          get_move t rn fl g p = Inl (IndexError Candidates) \<or>
          get_move t rn fl g p = Inl (IndexError Choice)"
    using get_move_outcome[OF assms(1), of t rn fl p]
    by (auto simp: move_outcome_def split: if_splits)
  then have e: "get_move t rn fl g p \<noteq> Inl (IndexError Board)" by auto
  from a b c d e show ?thesis by (intro conjI)
qed

theorem board_accesses_in_range_witness:
  "wf_grid draw_board \<and> ((1, - 1) :: int \<times> int) \<in> set directions \<and>
   (\<exists>n. count_consecutive draw_board 0 14 1 (- 1) 1 = Inr n) \<and>
   (\<exists>b. check_five_in_row draw_board 0 14 1 = Inr b) \<and>
   (\<exists>b. has_neighbors draw_board (14, 14) = Inr b) \<and>
   ((\<exists>m. get_move EXPERT rng0 floats0 draw_board 1 = Inr (m, draw_board)) \<or>
    get_move EXPERT rng0 floats0 draw_board 1 = Inl (IndexError Candidates) \<or>
    get_move EXPERT rng0 floats0 draw_board 1 = Inl (IndexError Choice)) \<and>
   get_move EXPERT rng0 floats0 draw_board 1 \<noteq> Inl (IndexError Board)"
proof -
  have w: "wf_grid draw_board" by (rule wf_draw_board)
  have d: "((1, - 1) :: int \<times> int) \<in> set directions" by (simp add: directions_def)
  note t = board_accesses_in_range[OF w d, of 0 14 1 "(14, 14)" EXPERT rng0 floats0 1]
  from w d t show ?thesis by blast
qed

text \<open>
  Claim C4, as amended. The engine has no signal for a board without an empty cell. On
  such a 15 x 15 board \<open>get_move\<close> raises \<^verbatim>\<open>IndexError\<close>: in the Beginner tier from
  \<^verbatim>\<open>random.choice\<close> on the empty list of positions, in the other tiers from
  \<^verbatim>\<open>candidate_moves[0]\<close> on the empty candidate list.
\<close>

theorem exhausted_board_raises_index_error:
  assumes "wf_grid g" and "\<And>r c. in_board r c \<Longrightarrow> cell g r c \<noteq> Inr 0"
  shows "get_move t rn fl g p = Inl (IndexError (if t = BEGINNER then Choice else Candidates))"
proof -
  have "empties g = []"
  proof (rule ccontr)
    assume "empties g \<noteq> []"
    then obtain m where "m \<in> set (empties g)" by (cases "empties g") auto
    then have "in_board (fst m) (snd m) \<and> cell g (fst m) (snd m) = Inr 0"
      using empties_iff[of "fst m" "snd m" g] by simp
    then show False using assms(2) by blast
  qed
  then show ?thesis using get_move_outcome[OF assms(1), of t rn fl p]
    by (simp add: move_outcome_def)
qed

lemma draw_board_full: "in_board r c \<Longrightarrow> cell draw_board r c \<noteq> Inr 0"
  using empties_draw_board empties_iff[of r c draw_board] by auto

theorem exhausted_board_raises_index_error_witness:
  "wf_grid draw_board \<and> empties draw_board = [] \<and>
   get_move ADVANCE rng1 floats0 draw_board 2 = Inl (IndexError Candidates) \<and>
   get_move BEGINNER rng1 floats0 draw_board 2 = Inl (IndexError Choice)"
proof -
  have w: "wf_grid draw_board" by (rule wf_draw_board)
  have a: "get_move ADVANCE rng1 floats0 draw_board 2 = Inl (IndexError Candidates)"
    using exhausted_board_raises_index_error[OF w draw_board_full, of ADVANCE rng1 floats0 2]
    by simp
  have b: "get_move BEGINNER rng1 floats0 draw_board 2 = Inl (IndexError Choice)"
    using exhausted_board_raises_index_error[OF w draw_board_full, of BEGINNER rng1 floats0 2]
    by simp
  from w empties_draw_board a b show ?thesis by (intro conjI)
qed

text \<open>
  Claim C4 as stated fails on the full board \<open>draw_board\<close>: what each tier returns
  there is the index fault itself, not a condition of its own.
\<close>

theorem exhausted_board_counterexample:
  "empties draw_board = [] \<and>
   get_move BEGINNER rng0 floats0 draw_board 1 = Inl (IndexError Choice) \<and>
   get_move INTERMEDIATE rng0 floats0 draw_board 1 = Inl (IndexError Candidates) \<and>
   get_move ADVANCE rng0 floats0 draw_board 1 = Inl (IndexError Candidates) \<and>
   get_move EXPERT rng0 floats0 draw_board 1 = Inl (IndexError Candidates)"
proof -
  have e: "empties draw_board = []" by code_simp
  have o: "move_outcome (if t = BEGINNER then Choice else Candidates) draw_board
             (get_move t rng0 floats0 draw_board 1)" for t
    by (rule get_move_outcome[OF wf_draw_board])
  show ?thesis
    using e o[of BEGINNER] o[of INTERMEDIATE] o[of ADVANCE] o[of EXPERT]
    by (simp add: move_outcome_def)
qed

end
